theory Spec2Isabelle
  imports Complex_Main
begin

section \<open>Arc-length parameterization of polylines (ezdxf.math.polyline)\<close>

text \<open>
  A shallow embedding of \<^verbatim>\<open>src/ezdxf/math/polyline.py\<close>: the class
  \<^verbatim>\<open>ConstructionPolyline\<close>, the helper \<^verbatim>\<open>_distances\<close> and the class
  \<^verbatim>\<open>ApproxParamT\<close>.

  Conventions of the embedding:
  \<^item> a Python \<^verbatim>\<open>float\<close> is a \<^typ>\<open>real\<close>: there is no NaN and no infinity. The
    functions whose result depends on the rounding of the floating-point arithmetic
    take the rounding as a parameter (see the subsection on rounding); the others
    compute exactly;
  \<^item> a Python \<^verbatim>\<open>int\<close> is an \<^typ>\<open>int\<close>; list indices are Python indices, so a
    negative index counts from the end and an index out of range is an \<^verbatim>\<open>IndexError\<close>;
  \<^item> an exception is the \<open>Inl\<close> of a sum type;
  \<^item> a generator is the list of the values it yields together with the exception that
    ended the iteration, if any;
  \<^item> a Python name with a leading underscore gets the prefix \<open>priv_\<close>; a name that
    is a constant of HOL already gets a suffix.
\<close>

subsection \<open>Exceptions and Python lists\<close>

datatype error =
    ValueError string
  | ArithmeticError string
  | IndexError
  | ZeroDivisionError
  | AssertionError

text \<open>\<^verbatim>\<open>xs[i]\<close> of Python.\<close>

definition py_get :: "'a list \<Rightarrow> int \<Rightarrow> error + 'a" where
  "py_get xs i =
     (if 0 \<le> i \<and> i < int (length xs) then Inr (xs ! nat i)
      else if i < 0 \<and> - int (length xs) \<le> i then Inr (xs ! nat (int (length xs) + i))
      else Inl IndexError)"

text \<open>\<^verbatim>\<open>int(x)\<close> of Python on a float: truncation towards zero.\<close>

definition py_int :: "real \<Rightarrow> int" where
  "py_int r = (if 0 \<le> r then \<lfloor>r\<rfloor> else \<lceil>r\<rceil>)"

text \<open>
  \<^verbatim>\<open>xs[start:stop:step]\<close> of Python, each bound an optional \<^verbatim>\<open>int\<close>
  (\<open>None\<close> when it is left out). The indices are those of \<^verbatim>\<open>slice.indices\<close>;
  a step of zero is a \<^verbatim>\<open>ValueError\<close>.
\<close>

function slice_range :: "int \<Rightarrow> int \<Rightarrow> int \<Rightarrow> int list" where
  "slice_range i stop step =
     (if step > 0 \<and> i < stop then i # slice_range (i + step) stop step
      else if step < 0 \<and> i > stop then i # slice_range (i + step) stop step
      else [])"
  by pat_completeness auto
termination
  by (relation "measure (\<lambda>(i, stop, step). nat (if step > 0 then stop - i else i - stop))") auto

declare slice_range.simps [simp del]

definition slice_indices :: "int option \<Rightarrow> int option \<Rightarrow> int \<Rightarrow> int \<Rightarrow> int list" where
  "slice_indices start stop step n =
     (let lower = (if step < 0 then -1 else 0);
          upper = (if step < 0 then n - 1 else n);
          clip = (\<lambda>b. if b < 0 then max (b + n) lower else min b upper);
          start' = (case start of None \<Rightarrow> (if step < 0 then upper else lower) | Some s \<Rightarrow> clip s);
          stop' = (case stop of None \<Rightarrow> (if step < 0 then lower else upper) | Some s \<Rightarrow> clip s)
      in slice_range start' stop' step)"

definition py_slice :: "'a list \<Rightarrow> int option \<Rightarrow> int option \<Rightarrow> int option \<Rightarrow> error + 'a list" where
  "py_slice xs start stop step =
     (let st = (case step of None \<Rightarrow> 1 | Some s \<Rightarrow> s)
      in if st = 0 then Inl (ValueError ''slice step cannot be zero'')
         else Inr (map (\<lambda>i. xs ! nat i) (slice_indices start stop st (int (length xs)))))"

subsection \<open>Rounding\<close>

text \<open>
  Each arithmetic operation on Python floats rounds its exact result. The functions
  \<^verbatim>\<open>ApproxParamT.__init__\<close>, \<^verbatim>\<open>param_t\<close>, \<^verbatim>\<open>distance\<close> and \<^verbatim>\<open>divide_by_length\<close>
  take this rounding as their first argument \<open>rnd\<close> and apply it to the result of each
  of their own arithmetic operations. With \<open>round_double\<close> for \<open>rnd\<close> they compute
  as the program does: it is the rounding of IEEE 754 binary64, to the nearest value
  of 53 significant bits, a tie going to the even one (the exponent is not bounded, so
  there is no overflow and no underflow). With the identity for \<open>rnd\<close> they compute in
  exact arithmetic.
\<close>

definition round_half_even :: "real \<Rightarrow> int" where
  "round_half_even x =
     (if x - real_of_int \<lfloor>x\<rfloor> < 1 / 2 then \<lfloor>x\<rfloor>
      else if x - real_of_int \<lfloor>x\<rfloor> > 1 / 2 then \<lfloor>x\<rfloor> + 1
      else if even \<lfloor>x\<rfloor> then \<lfloor>x\<rfloor> else \<lfloor>x\<rfloor> + 1)"

definition round_double :: "real \<Rightarrow> real" where
  "round_double x =
     (if x = 0 then 0
      else
        (let e = \<lfloor>log 2 \<bar>x\<bar>\<rfloor> - 52
         in real_of_int (round_half_even (x / 2 powr real_of_int e)) * 2 powr real_of_int e))"

subsection \<open>The geometry primitives\<close>

text \<open>
  Modelled from the spec: the class \<^verbatim>\<open>Vec3\<close>, the constant \<^verbatim>\<open>NULLVEC\<close> and the
  function \<^verbatim>\<open>linspace\<close> of \<^verbatim>\<open>ezdxf.math\<close> are imported by the source and are not
  part of it. The spec takes them to be a correct geometry library: points with
  subtraction, magnitude and linear interpolation, equality within a tolerance, and
  evenly spaced samples between two bounds, both included. A point has three
  coordinates; \<^verbatim>\<open>isclose\<close> compares coordinate by coordinate the way
  \<^verbatim>\<open>math.isclose\<close> does, with the absolute tolerance \<^verbatim>\<open>1e-12\<close> and the relative
  tolerance \<^verbatim>\<open>1e-9\<close> when none is given (tolerances are taken to be non-negative).
\<close>

datatype Vec3 = Vec3 (vx: real) (vy: real) (vz: real)

definition NULLVEC :: Vec3 where
  "NULLVEC = Vec3 0 0 0"

definition vec_add :: "Vec3 \<Rightarrow> Vec3 \<Rightarrow> Vec3" where
  "vec_add a b = Vec3 (vx a + vx b) (vy a + vy b) (vz a + vz b)"

definition vec_sub :: "Vec3 \<Rightarrow> Vec3 \<Rightarrow> Vec3" where
  "vec_sub a b = Vec3 (vx a - vx b) (vy a - vy b) (vz a - vz b)"

definition vec_mul :: "Vec3 \<Rightarrow> real \<Rightarrow> Vec3" where
  "vec_mul a f = Vec3 (vx a * f) (vy a * f) (vz a * f)"

definition magnitude :: "Vec3 \<Rightarrow> real" where
  "magnitude a = sqrt (vx a * vx a + vy a * vy a + vz a * vz a)"

definition lerp :: "Vec3 \<Rightarrow> Vec3 \<Rightarrow> real \<Rightarrow> Vec3" where
  "lerp a b factor = vec_add a (vec_mul (vec_sub b a) factor)"

definition math_isclose :: "real \<Rightarrow> real \<Rightarrow> real \<Rightarrow> real \<Rightarrow> bool" where
  "math_isclose a b rel_tol abs_tol =
     (\<bar>a - b\<bar> \<le> max (rel_tol * max \<bar>a\<bar> \<bar>b\<bar>) abs_tol)"

definition ABS_TOL :: real where
  "ABS_TOL = 1 / 10 ^ 12"

definition isclose :: "Vec3 \<Rightarrow> Vec3 \<Rightarrow> real \<Rightarrow> bool" where
  "isclose a b rel_tol =
     (math_isclose (vx a) (vx b) rel_tol ABS_TOL
      \<and> math_isclose (vy a) (vy b) rel_tol ABS_TOL
      \<and> math_isclose (vz a) (vz b) rel_tol ABS_TOL)"

definition linspace :: "real \<Rightarrow> real \<Rightarrow> int \<Rightarrow> error + real list" where
  "linspace start stop num =
     (if num < 0 then Inl (ValueError ''Number of samples must be non-negative.'')
      else if num = 0 then Inr []
      else if num = 1 then Inr [start]
      else Inr (map (\<lambda>k. start + real k * ((stop - start) / real_of_int (num - 1)))
                  [0 ..< nat num]))"

subsection \<open>ConstructionPolyline\<close>

definition REL_TOL :: real where
  "REL_TOL = 1 / 10 ^ 9"

text \<open>
  \<^verbatim>\<open>_distances\<close>: the loop over the vertices, its state the running station, the list
  built so far and the previous vertex.
\<close>

fun distances_loop :: "Vec3 list \<Rightarrow> real \<Rightarrow> real list \<Rightarrow> Vec3 \<Rightarrow> real list" where
  "distances_loop [] current_station distances prev_vertex = distances"
| "distances_loop (vertex # rest) current_station distances prev_vertex =
     (if distances \<noteq> [] then
        (let distant_vec = vec_sub vertex prev_vertex;
             current_station' = current_station + magnitude distant_vec
         in distances_loop rest current_station' (distances @ [current_station']) vertex)
      else distances_loop rest current_station (distances @ [current_station]) vertex)"

definition priv_distances :: "Vec3 list \<Rightarrow> real list" where
  "priv_distances vertices = distances_loop vertices 0 [] NULLVEC"

record polyline =
  self_rel_tol :: real
  self_vertices :: "Vec3 list"
  self_distances :: "real list"

text \<open>
  \<^verbatim>\<open>__init__\<close>. The list \<^verbatim>\<open>v3list\<close> and the attribute \<^verbatim>\<open>_vertices\<close> are one object,
  so the vertex appended by \<^verbatim>\<open>close\<close> is a vertex of the polyline.
\<close>

definition ConstructionPolyline :: "Vec3 list \<Rightarrow> bool \<Rightarrow> real \<Rightarrow> polyline" where
  "ConstructionPolyline vertices close rel_tol =
     (let v3list =
        (if close \<and> length vertices > 2 \<and> \<not> isclose (vertices ! 0) (last vertices) rel_tol
         then vertices @ [vertices ! 0] else vertices)
      in \<lparr> self_rel_tol = rel_tol, self_vertices = v3list,
           self_distances = priv_distances v3list \<rparr>)"

text \<open>\<^verbatim>\<open>__len__\<close>.\<close>

definition len :: "polyline \<Rightarrow> int" where
  "len p = int (length (self_vertices p))"

text \<open>\<^verbatim>\<open>__getitem__\<close>, for an \<^verbatim>\<open>int\<close> and for a slice.\<close>

definition getitem :: "polyline \<Rightarrow> int \<Rightarrow> error + Vec3" where
  "getitem p item = py_get (self_vertices p) item"

definition getitem_slice ::
  "polyline \<Rightarrow> int option \<Rightarrow> int option \<Rightarrow> int option \<Rightarrow> error + polyline" where
  "getitem_slice p start stop step =
     (case py_slice (self_vertices p) start stop step of
        Inl e \<Rightarrow> Inl e
      | Inr vs \<Rightarrow> Inr (ConstructionPolyline vs False (self_rel_tol p)))"

text \<open>The property \<^verbatim>\<open>length\<close>.\<close>

definition length_of :: "polyline \<Rightarrow> real" where
  "length_of p = (if self_distances p \<noteq> [] then last (self_distances p) else 0)"

text \<open>The property \<^verbatim>\<open>is_closed\<close>.\<close>

definition is_closed :: "polyline \<Rightarrow> bool" where
  "is_closed p =
     (if length (self_vertices p) > 2
      then isclose (self_vertices p ! 0) (last (self_vertices p)) (self_rel_tol p)
      else False)"

text \<open>\<^verbatim>\<open>data\<close>.\<close>

definition data :: "polyline \<Rightarrow> int \<Rightarrow> error + (real \<times> real \<times> Vec3)" where
  "data p index =
     (if self_vertices p = [] then Inl (ValueError ''empty polyline'')
      else if index = 0 then Inr (0, 0, self_vertices p ! 0)
      else
        (case py_get (self_distances p) (index - 1) of
           Inl e \<Rightarrow> Inl e
         | Inr prev_distance \<Rightarrow>
             (case py_get (self_distances p) index of
                Inl e \<Rightarrow> Inl e
              | Inr current_distance \<Rightarrow>
                  (case py_get (self_vertices p) index of
                     Inl e \<Rightarrow> Inl e
                   | Inr vertex \<Rightarrow>
                       Inr (current_distance, current_distance - prev_distance, vertex)))))"

text \<open>
  \<^verbatim>\<open>bisect.bisect_left\<close> of Python's standard library: the loop that halves the
  interval \<^verbatim>\<open>[lo, hi)\<close>.
\<close>

function bisect_left_loop :: "real list \<Rightarrow> real \<Rightarrow> nat \<Rightarrow> nat \<Rightarrow> nat" where
  "bisect_left_loop a x lo hi =
     (if lo < hi then
        (let mid = (lo + hi) div 2
         in if a ! mid < x then bisect_left_loop a x (mid + 1) hi
            else bisect_left_loop a x lo mid)
      else lo)"
  by pat_completeness auto
termination
  by (relation "measure (\<lambda>(a, x, lo, hi). hi - lo)") auto

declare bisect_left_loop.simps [simp del]

definition bisect_left :: "real list \<Rightarrow> real \<Rightarrow> nat" where
  "bisect_left a x = bisect_left_loop a x 0 (length a)"

text \<open>\<^verbatim>\<open>_index_at\<close> and \<^verbatim>\<open>index_at\<close>.\<close>

definition priv_index_at :: "polyline \<Rightarrow> real \<Rightarrow> int" where
  "priv_index_at p d = int (bisect_left (self_distances p) d)"

definition index_at :: "polyline \<Rightarrow> real \<Rightarrow> int" where
  "index_at p d =
     (if d \<le> 0 then 0
      else if d \<ge> length_of p then max 0 (len p - 1)
      else priv_index_at p d)"

text \<open>
  \<^verbatim>\<open>_vertex_at\<close>. The loop that skips coincident vertices has the state
  \<^verbatim>\<open>(index0, distance0)\<close>.
\<close>

function skip_coincident :: "real list \<Rightarrow> real \<Rightarrow> int \<Rightarrow> real \<Rightarrow> error + (int \<times> real)" where
  "skip_coincident distances distance1 index0 distance0 =
     (if index0 > 0 \<and> distance0 = distance1 then
        (case py_get distances (index0 - 1) of
           Inl e \<Rightarrow> Inl e
         | Inr d \<Rightarrow> skip_coincident distances distance1 (index0 - 1) d)
      else Inr (index0, distance0))"
  by pat_completeness auto
termination
  by (relation "measure (\<lambda>(ds, d1, i0, d0). nat i0)") auto

declare skip_coincident.simps [simp del]

definition priv_vertex_at :: "polyline \<Rightarrow> real \<Rightarrow> error + Vec3" where
  "priv_vertex_at p d =
     (let vertices = self_vertices p;
          distances = self_distances p;
          index1 = priv_index_at p d
      in if index1 = 0 then py_get vertices 0
         else
           (case py_get distances index1 of
              Inl e \<Rightarrow> Inl e
            | Inr distance1 \<Rightarrow>
           (case py_get distances (index1 - 1) of
              Inl e \<Rightarrow> Inl e
            | Inr d0 \<Rightarrow>
           (case skip_coincident distances distance1 (index1 - 1) d0 of
              Inl e \<Rightarrow> Inl e
            | Inr (index0, distance0) \<Rightarrow>
                if distance0 = distance1
                then Inl (ArithmeticError ''internal interpolation error'')
                else
                  (let factor = (d - distance0) / (distance1 - distance0)
                   in (case py_get vertices index0 of
                         Inl e \<Rightarrow> Inl e
                       | Inr v0 \<Rightarrow>
                           (case py_get vertices index1 of
                              Inl e \<Rightarrow> Inl e
                            | Inr v1 \<Rightarrow> Inr (lerp v0 v1 factor))))))))"

text \<open>\<^verbatim>\<open>vertex_at\<close>.\<close>

definition vertex_at :: "polyline \<Rightarrow> real \<Rightarrow> error + Vec3" where
  "vertex_at p d =
     (if d < 0 \<or> d > length_of p then Inl (ValueError ''distance out of range'')
      else if length (self_vertices p) < 2
      then Inl (ValueError ''not enough vertices for interpolation'')
      else priv_vertex_at p d)"

text \<open>
  \<^verbatim>\<open>divide\<close>: a generator. The loop over the sampled distances yields one vertex per
  distance and stops at the first exception. The count formatted into the message of
  the \<^verbatim>\<open>ValueError\<close> is left out of the message.
\<close>

fun yield_vertices :: "polyline \<Rightarrow> real list \<Rightarrow> Vec3 list \<times> error option" where
  "yield_vertices p [] = ([], None)"
| "yield_vertices p (d # rest) =
     (case priv_vertex_at p d of
        Inl e \<Rightarrow> ([], Some e)
      | Inr v \<Rightarrow> (case yield_vertices p rest of (vs, e) \<Rightarrow> (v # vs, e)))"

definition divide_count :: "polyline \<Rightarrow> int \<Rightarrow> Vec3 list \<times> error option" where
  "divide_count p count =
     (if count < 2 then ([], Some (ValueError ''invalid count''))
      else
        (case linspace 0 (length_of p) count of
           Inl e \<Rightarrow> ([], Some e)
         | Inr ds \<Rightarrow> yield_vertices p ds))"

text \<open>
  \<^verbatim>\<open>divide_by_length\<close>: a generator. The \<^verbatim>\<open>while\<close> loop has the state
  \<^verbatim>\<open>(distance, vertex)\<close> and the vertices yielded so far; it ends with the vertices
  yielded, the last value of \<^verbatim>\<open>vertex\<close> and the exception raised, if any. A loop that
  does not end has the value \<open>None\<close>. The argument \<^verbatim>\<open>length\<close> is \<open>step_length\<close> here.
  The last comparison calls \<^verbatim>\<open>isclose\<close> without tolerances, so with its defaults
  and not with the tolerance of the polyline. The length formatted into the message of the
  \<^verbatim>\<open>ValueError\<close> is left out of the message.
\<close>

partial_function (option) divide_loop ::
  "(real \<Rightarrow> real) \<Rightarrow> polyline \<Rightarrow> real \<Rightarrow> real \<Rightarrow> real \<Rightarrow> Vec3 \<Rightarrow> Vec3 list
     \<Rightarrow> (Vec3 list \<times> Vec3 \<times> error option) option" where
  "divide_loop rnd p step_length total_length distance vertex out =
     (if distance \<le> total_length then
        (case priv_vertex_at p distance of
           Inl e \<Rightarrow> Some (out, vertex, Some e)
         | Inr v \<Rightarrow>
             divide_loop rnd p step_length total_length (rnd (distance + step_length)) v
               (out @ [v]))
      else Some (out, vertex, None))"

definition divide_by_length ::
  "(real \<Rightarrow> real) \<Rightarrow> polyline \<Rightarrow> real \<Rightarrow> bool \<Rightarrow> (Vec3 list \<times> error option) option" where
  "divide_by_length rnd p step_length force_last =
     (if step_length \<le> 0 then Some ([], Some (ValueError ''invalid length''))
      else if length (self_vertices p) < 2
      then Some ([], Some (ValueError ''not enough vertices for interpolation''))
      else
        (case divide_loop rnd p step_length (length_of p) 0 NULLVEC [] of
           None \<Rightarrow> None
         | Some (out, vertex, Some e) \<Rightarrow> Some (out, Some e)
         | Some (out, vertex, None) \<Rightarrow>
             if force_last \<and> \<not> isclose vertex (last (self_vertices p)) REL_TOL
             then Some (out @ [last (self_vertices p)], None)
             else Some (out, None)))"

subsection \<open>ApproxParamT\<close>

text \<open>
  The curve is its method \<^verbatim>\<open>point\<close>, a function from the parameter to a point.
  \<^verbatim>\<open>__init__\<close> asserts that there is at least one segment.
\<close>

record approx_param_t =
  self_polyline :: polyline
  self_max_t :: real
  self_step :: real

definition ApproxParamT ::
  "(real \<Rightarrow> real) \<Rightarrow> (real \<Rightarrow> Vec3) \<Rightarrow> real \<Rightarrow> int \<Rightarrow> error + approx_param_t" where
  "ApproxParamT rnd curve max_t segments =
     (if \<not> segments > 0 then Inl AssertionError
      else
        (case linspace 0 max_t (segments + 1) of
           Inl e \<Rightarrow> Inl e
         | Inr ts \<Rightarrow>
             Inr \<lparr> self_polyline = ConstructionPolyline (map curve ts) False REL_TOL,
                   self_max_t = max_t,
                   self_step = rnd (max_t / real_of_int segments) \<rparr>))"

text \<open>\<^verbatim>\<open>param_t\<close>.\<close>

definition param_t :: "(real \<Rightarrow> real) \<Rightarrow> approx_param_t \<Rightarrow> real \<Rightarrow> error + real" where
  "param_t rnd a d =
     (let poly = self_polyline a
      in if d \<ge> length_of poly then Inr (self_max_t a)
         else
           (let t_step = self_step a;
                i = index_at poly d
            in (case data poly i of
                  Inl e \<Rightarrow> Inl e
                | Inr (station, d0, _) \<Rightarrow>
                    (let t = rnd (t_step * real_of_int i);
                         t' = (if d0 > 1 / 10 ^ 12
                               then rnd (t - rnd (rnd (t_step * rnd (station - d)) / d0))
                               else t)
                     in Inr (min (self_max_t a) t')))))"

text \<open>\<^verbatim>\<open>distance\<close>. Dividing by a step of zero is a \<^verbatim>\<open>ZeroDivisionError\<close>.\<close>

definition distance :: "(real \<Rightarrow> real) \<Rightarrow> approx_param_t \<Rightarrow> real \<Rightarrow> error + real" where
  "distance rnd a t =
     (if t \<le> 0 then Inr 0
      else
        (let poly = self_polyline a
         in if t \<ge> self_max_t a then Inr (length_of poly)
            else
              (let step = self_step a
               in if step = 0 then Inl ZeroDivisionError
                  else
                    (let index = py_int (rnd (t / step)) + 1
                     in (case data poly index of
                           Inl e \<Rightarrow> Inl e
                         | Inr (station, d0, _) \<Rightarrow>
                             Inr (rnd (station
                                    - rnd (rnd (d0 * rnd (rnd (step * real_of_int index) - t))
                                           / step))))))))"

subsection \<open>The invariant of the distance array\<close>

text \<open>
  The invariant the spec states for a polyline: as many distances as vertices; the
  first distance is zero; each further distance is the one before it plus the length
  of the segment that ends at its vertex; the distances are non-negative and
  non-decreasing, and the length is not negative.
\<close>

definition distances_invariant :: "polyline \<Rightarrow> bool" where
  "distances_invariant p \<longleftrightarrow>
     length (self_distances p) = length (self_vertices p)
     \<and> (self_vertices p \<noteq> [] \<longrightarrow> self_distances p ! 0 = 0)
     \<and> (\<forall>i. 0 < i \<and> i < length (self_vertices p) \<longrightarrow>
           self_distances p ! i =
             self_distances p ! (i - 1)
               + magnitude (vec_sub (self_vertices p ! i) (self_vertices p ! (i - 1))))
     \<and> sorted (self_distances p)
     \<and> (\<forall>d \<in> set (self_distances p). 0 \<le> d)
     \<and> 0 \<le> length_of p"

subsection \<open>A curve for the examples\<close>

text \<open>The straight line along the first axis, \<^verbatim>\<open>point(t) = (t, 0, 0)\<close>.\<close>

definition line_curve :: "real \<Rightarrow> Vec3" where
  "line_curve t = Vec3 t 0 0"

subsection \<open>The position of a distance in the distance array\<close>

text \<open>
  A notion of the proofs, not a function of the source: the position of a distance
  along a distance array, counted in segments. It is the index of the bracket's end
  less the share of the bracket that lies beyond the distance, the share being counted
  only when the bracket is longer than \<^verbatim>\<open>1e-12\<close>, as \<^verbatim>\<open>param_t\<close> does.
\<close>

definition bracket_pos :: "real list \<Rightarrow> real \<Rightarrow> real" where
  "bracket_pos ds d =
     (if d \<le> 0 then 0
      else
        (let i = bisect_left ds d; d0 = ds ! i - ds ! (i - 1)
         in real i - (if d0 > 1 / 10 ^ 12 then (ds ! i - d) / d0 else 0)))"

subsection \<open>The running distance of divide_by_length\<close>

text \<open>
  The value of the variable \<^verbatim>\<open>distance\<close> in the loop of \<^verbatim>\<open>divide_by_length\<close> after
  \<open>k\<close> passes, when it was \<open>d\<close> before the first: each pass adds the step and rounds.
\<close>

primrec running_distance :: "(real \<Rightarrow> real) \<Rightarrow> real \<Rightarrow> real \<Rightarrow> nat \<Rightarrow> real" where
  "running_distance rnd step_length d 0 = d"
| "running_distance rnd step_length d (Suc k) =
     rnd (running_distance rnd step_length d k + step_length)"

section \<open>The distance array\<close>

lemma magnitude_nonneg: "0 \<le> magnitude a"
  by (simp add: magnitude_def)

lemma distances_loop_length:
  "length (distances_loop vs cur ds prev) = length ds + length vs"
  by (induction vs arbitrary: cur ds prev) (auto simp: Let_def)

lemma distances_loop_prefix:
  "i < length ds \<Longrightarrow> distances_loop vs cur ds prev ! i = ds ! i"
  by (induction vs arbitrary: cur ds prev) (auto simp: Let_def nth_append)

lemma distances_loop_step:
  "length pre = length ds \<Longrightarrow> (ds \<noteq> [] \<Longrightarrow> last ds = cur \<and> last pre = prev)
   \<Longrightarrow> max 1 (length ds) \<le> i \<Longrightarrow> i < length ds + length vs
   \<Longrightarrow> distances_loop vs cur ds prev ! i =
       distances_loop vs cur ds prev ! (i - 1)
         + magnitude (vec_sub ((pre @ vs) ! i) ((pre @ vs) ! (i - 1)))"
proof (induction vs arbitrary: pre cur ds prev)
  case Nil
  then show ?case by simp
next
  case (Cons v rest)
  show ?case
  proof (cases "ds = []")
    case True
    with Cons.prems have pre: "pre = []" by simp
    have "distances_loop rest cur [cur] v ! i =
       distances_loop rest cur [cur] v ! (i - 1)
         + magnitude (vec_sub (([v] @ rest) ! i) (([v] @ rest) ! (i - 1)))"
      using Cons.prems True by (intro Cons.IH) auto
    then show ?thesis using True pre by simp
  next
    case False
    let ?cur = "cur + magnitude (vec_sub v prev)"
    let ?ds = "ds @ [?cur]"
    have lastds: "last ds = cur" "last pre = prev" using Cons.prems False by auto
    have unf: "distances_loop (v # rest) cur ds prev = distances_loop rest ?cur ?ds v"
      using False by (simp add: Let_def)
    show ?thesis
    proof (cases "i = length ds")
      case True
      have a: "distances_loop rest ?cur ?ds v ! i = ?cur"
        using True by (simp add: distances_loop_prefix)
      have b: "distances_loop rest ?cur ?ds v ! (i - 1) = cur"
        using True False lastds by (simp add: distances_loop_prefix nth_append last_conv_nth)
      have pne: "pre \<noteq> []" using Cons.prems False by auto
      have c: "(pre @ v # rest) ! i = v" using True Cons.prems by (simp add: nth_append)
      have d: "(pre @ v # rest) ! (i - 1) = prev"
        using True Cons.prems False lastds pne by (simp add: nth_append last_conv_nth)
      show ?thesis unfolding unf a b c d by simp
    next
      case ne: False
      have "distances_loop rest ?cur ?ds v ! i =
         distances_loop rest ?cur ?ds v ! (i - 1)
           + magnitude (vec_sub (((pre @ [v]) @ rest) ! i) (((pre @ [v]) @ rest) ! (i - 1)))"
        using Cons.prems ne False by (intro Cons.IH) auto
      then show ?thesis unfolding unf by simp
    qed
  qed
qed

lemma priv_distances_length: "length (priv_distances vs) = length vs"
  by (simp add: priv_distances_def distances_loop_length)

lemma priv_distances_0: "vs \<noteq> [] \<Longrightarrow> priv_distances vs ! 0 = 0"
  by (cases vs) (simp_all add: priv_distances_def distances_loop_prefix)

lemma priv_distances_step:
  "0 < i \<Longrightarrow> i < length vs \<Longrightarrow>
   priv_distances vs ! i = priv_distances vs ! (i - 1) + magnitude (vec_sub (vs ! i) (vs ! (i - 1)))"
  using distances_loop_step [of "[]" "[]" 0 NULLVEC i vs]
  by (simp add: priv_distances_def)

lemma priv_distances_sorted: "sorted (priv_distances vs)"
proof -
  have "priv_distances vs ! i \<le> priv_distances vs ! Suc i" if "Suc i < length (priv_distances vs)" for i
    using priv_distances_step [of "Suc i" vs] that magnitude_nonneg
    by (simp add: priv_distances_length)
  then show ?thesis by (simp add: sorted_iff_nth_Suc)
qed

section \<open>Binary search\<close>

lemma bisect_left_loop_spec:
  "sorted a \<Longrightarrow> lo \<le> hi \<Longrightarrow> hi \<le> length a
   \<Longrightarrow> (\<And>i. i < lo \<Longrightarrow> a ! i < x)
   \<Longrightarrow> (\<And>i. hi \<le> i \<Longrightarrow> i < length a \<Longrightarrow> x \<le> a ! i)
   \<Longrightarrow> lo \<le> bisect_left_loop a x lo hi \<and> bisect_left_loop a x lo hi \<le> hi
       \<and> (\<forall>i < bisect_left_loop a x lo hi. a ! i < x)
       \<and> (\<forall>i. bisect_left_loop a x lo hi \<le> i \<and> i < length a \<longrightarrow> x \<le> a ! i)"
proof (induction a x lo hi rule: bisect_left_loop.induct)
  case (1 a x lo hi)
  show ?case
  proof (cases "lo < hi")
    case False
    with "1.prems" show ?thesis
      by (subst (1 2 3 4) bisect_left_loop.simps) auto
  next
    case True
    define mid where "mid = (lo + hi) div 2"
    have mid: "lo \<le> mid" "mid < hi" using True by (auto simp: mid_def)
    show ?thesis
    proof (cases "a ! mid < x")
      case lt: True
      have unf: "bisect_left_loop a x lo hi = bisect_left_loop a x (mid + 1) hi"
        using True lt by (subst bisect_left_loop.simps) (simp add: mid_def Let_def)
      have below: "a ! i < x" if "i < mid + 1" for i
      proof -
        have "a ! i \<le> a ! mid"
          using that mid "1.prems"(1,3) by (intro sorted_nth_mono) auto
        with lt show ?thesis by simp
      qed
      have "mid + 1 \<le> bisect_left_loop a x (mid + 1) hi \<and> bisect_left_loop a x (mid + 1) hi \<le> hi
       \<and> (\<forall>i < bisect_left_loop a x (mid + 1) hi. a ! i < x)
       \<and> (\<forall>i. bisect_left_loop a x (mid + 1) hi \<le> i \<and> i < length a \<longrightarrow> x \<le> a ! i)"
        using True lt mid "1.prems" below
        by (intro "1.IH"(1)[OF True mid_def]) auto
      then show ?thesis unfolding unf using mid by auto
    next
      case ge: False
      have unf: "bisect_left_loop a x lo hi = bisect_left_loop a x lo mid"
        using True ge by (subst bisect_left_loop.simps) (simp add: mid_def Let_def)
      have above: "x \<le> a ! i" if "mid \<le> i" "i < length a" for i
      proof -
        have "a ! mid \<le> a ! i"
          using that "1.prems"(1) by (intro sorted_nth_mono) auto
        with ge show ?thesis by simp
      qed
      have "lo \<le> bisect_left_loop a x lo mid \<and> bisect_left_loop a x lo mid \<le> mid
       \<and> (\<forall>i < bisect_left_loop a x lo mid. a ! i < x)
       \<and> (\<forall>i. bisect_left_loop a x lo mid \<le> i \<and> i < length a \<longrightarrow> x \<le> a ! i)"
        using True ge mid "1.prems" above
        by (intro "1.IH"(2)[OF True mid_def]) auto
      then show ?thesis unfolding unf using mid by auto
    qed
  qed
qed

lemma bisect_left_le_length: "sorted a \<Longrightarrow> bisect_left a x \<le> length a"
  using bisect_left_loop_spec [of a 0 "length a" x] by (simp add: bisect_left_def)

lemma bisect_left_below: "sorted a \<Longrightarrow> i < bisect_left a x \<Longrightarrow> a ! i < x"
  using bisect_left_loop_spec [of a 0 "length a" x] by (simp add: bisect_left_def)

lemma bisect_left_above: "sorted a \<Longrightarrow> bisect_left a x \<le> i \<Longrightarrow> i < length a \<Longrightarrow> x \<le> a ! i"
  using bisect_left_loop_spec [of a 0 "length a" x] by (simp add: bisect_left_def)

section \<open>Interpolation on a sorted distance array\<close>

lemma py_get_nat: "py_get xs (int i) = (if i < length xs then Inr (xs ! i) else Inl IndexError)"
  by (simp add: py_get_def)

lemma py_get_0: "py_get xs 0 = (if xs = [] then Inl IndexError else Inr (xs ! 0))"
  using py_get_nat [of xs 0] by simp

lemma py_get_pred: "0 < i \<Longrightarrow> i \<le> length xs \<Longrightarrow> py_get xs (int i - 1) = Inr (xs ! (i - 1))"
proof -
  assume a: "0 < i" "i \<le> length xs"
  then have "int i - 1 = int (i - 1)" by simp
  moreover have "i - 1 < length xs" using a by simp
  ultimately show ?thesis by (simp only: py_get_nat if_True)
qed

lemma skip_coincident_stop:
  "distance0 \<noteq> distance1 \<Longrightarrow>
   skip_coincident ds distance1 index0 distance0 = Inr (index0, distance0)"
  by (subst skip_coincident.simps) simp

lemma priv_vertex_at_first:
  "bisect_left (self_distances p) d = 0 \<Longrightarrow>
   priv_vertex_at p d = (if self_vertices p = [] then Inl IndexError else Inr (self_vertices p ! 0))"
  by (simp add: priv_vertex_at_def priv_index_at_def py_get_0)

lemma priv_vertex_at_beyond:
  "bisect_left (self_distances p) d = length (self_distances p) \<Longrightarrow> self_distances p \<noteq> [] \<Longrightarrow>
   priv_vertex_at p d = Inl IndexError"
  by (simp add: priv_vertex_at_def priv_index_at_def py_get_nat)

lemma priv_vertex_at_bracket:
  assumes i1: "bisect_left (self_distances p) d = i1" "0 < i1" "i1 < length (self_distances p)"
    and len: "length (self_distances p) = length (self_vertices p)"
    and neq: "self_distances p ! (i1 - 1) \<noteq> self_distances p ! i1"
  shows "priv_vertex_at p d =
     Inr (lerp (self_vertices p ! (i1 - 1)) (self_vertices p ! i1)
            ((d - self_distances p ! (i1 - 1)) / (self_distances p ! i1 - self_distances p ! (i1 - 1))))"
proof -
  have a: "py_get (self_distances p) (int i1) = Inr (self_distances p ! i1)"
    using i1 by (simp add: py_get_nat)
  have b: "py_get (self_distances p) (int i1 - 1) = Inr (self_distances p ! (i1 - 1))"
    using i1 by (simp add: py_get_pred)
  have c: "py_get (self_vertices p) (int i1) = Inr (self_vertices p ! i1)"
    using i1 len by (simp add: py_get_nat)
  have e: "py_get (self_vertices p) (int i1 - 1) = Inr (self_vertices p ! (i1 - 1))"
    using i1 len by (simp add: py_get_pred)
  have s: "skip_coincident (self_distances p) (self_distances p ! i1) (int i1 - 1)
              (self_distances p ! (i1 - 1)) = Inr (int i1 - 1, self_distances p ! (i1 - 1))"
    using neq by (rule skip_coincident_stop)
  have nz: "int i1 \<noteq> 0" using i1 by simp
  show ?thesis
    unfolding priv_vertex_at_def priv_index_at_def Let_def i1(1)
    by (simp only: nz if_False a b c e s sum.case prod.case neq)
qed

lemma priv_vertex_at_sorted:
  assumes srt: "sorted (self_distances p)"
    and len: "length (self_distances p) = length (self_vertices p)"
  shows "priv_vertex_at p d =
     (let ds = self_distances p; vs = self_vertices p; i1 = bisect_left ds d
      in if i1 = 0 then (if vs = [] then Inl IndexError else Inr (vs ! 0))
         else if i1 = length ds then Inl IndexError
         else Inr (lerp (vs ! (i1 - 1)) (vs ! i1) ((d - ds ! (i1 - 1)) / (ds ! i1 - ds ! (i1 - 1)))))"
proof -
  define i1 where "i1 = bisect_left (self_distances p) d"
  have le: "i1 \<le> length (self_distances p)"
    using bisect_left_le_length [OF srt] by (simp add: i1_def)
  consider "i1 = 0" | "i1 \<noteq> 0" "i1 = length (self_distances p)"
    | "0 < i1" "i1 < length (self_distances p)"
    using le by linarith
  then show ?thesis
  proof cases
    case 1
    then show ?thesis
      using priv_vertex_at_first [of p d] by (simp add: i1_def Let_def)
  next
    case 2
    then show ?thesis
      using priv_vertex_at_beyond [of p d] by (auto simp: i1_def Let_def)
  next
    case 3
    have below: "self_distances p ! (i1 - 1) < d"
      using bisect_left_below [OF srt, of "i1 - 1" d] 3 by (simp add: i1_def)
    have above: "d \<le> self_distances p ! i1"
      using bisect_left_above [OF srt, of d i1] 3 by (simp add: i1_def)
    have neq: "self_distances p ! (i1 - 1) \<noteq> self_distances p ! i1" using below above by simp
    show ?thesis
      using priv_vertex_at_bracket [OF i1_def [symmetric] 3 len neq] 3
      by (simp add: i1_def Let_def)
  qed
qed

lemma bisect_left_bracket:
  assumes srt: "sorted ds" and pos: "0 < bisect_left ds d" and lt: "bisect_left ds d < length ds"
  shows "ds ! (bisect_left ds d - 1) < d \<and> d \<le> ds ! bisect_left ds d"
  using bisect_left_below [OF srt, of "bisect_left ds d - 1" d]
    bisect_left_above [OF srt, of d "bisect_left ds d"] pos lt by simp

lemma bisect_left_in_range:
  assumes srt: "sorted ds" and ne: "ds \<noteq> []" and le: "d \<le> last ds"
  shows "bisect_left ds d < length ds"
proof (rule ccontr)
  assume "\<not> bisect_left ds d < length ds"
  then have "length ds - 1 < bisect_left ds d" using ne by (cases ds) auto
  then have "ds ! (length ds - 1) < d" by (rule bisect_left_below [OF srt])
  then show False using le ne by (simp add: last_conv_nth)
qed

lemma bisect_left_pos:
  assumes srt: "sorted ds" and ne: "ds \<noteq> []" and lt: "ds ! 0 < d"
  shows "0 < bisect_left ds d"
proof (rule ccontr)
  assume "\<not> 0 < bisect_left ds d"
  then have "bisect_left ds d \<le> 0" by simp
  then have "d \<le> ds ! 0" using ne by (intro bisect_left_above [OF srt]) auto
  then show False using lt by simp
qed

lemma bisect_left_zero:
  assumes srt: "sorted ds" and le: "ds \<noteq> [] \<Longrightarrow> d \<le> ds ! 0"
  shows "bisect_left ds d = 0"
proof (rule ccontr)
  assume "bisect_left ds d \<noteq> 0"
  then have pos: "0 < bisect_left ds d" by simp
  then have "ds ! 0 < d" by (rule bisect_left_below [OF srt])
  moreover have "ds \<noteq> []" using pos bisect_left_le_length [OF srt, of d] by auto
  ultimately show False using le by simp
qed

text \<open>Facts about a constructed polyline.\<close>

lemma cp_distances:
  "self_distances (ConstructionPolyline vs c rt) =
   priv_distances (self_vertices (ConstructionPolyline vs c rt))"
  by (simp add: ConstructionPolyline_def Let_def)

lemma cp_sorted: "sorted (self_distances (ConstructionPolyline vs c rt))"
  by (simp add: cp_distances priv_distances_sorted)

lemma cp_length:
  "length (self_distances (ConstructionPolyline vs c rt)) =
   length (self_vertices (ConstructionPolyline vs c rt))"
  by (simp add: cp_distances priv_distances_length)

lemma cp_first:
  "self_vertices (ConstructionPolyline vs c rt) \<noteq> [] \<Longrightarrow>
   self_distances (ConstructionPolyline vs c rt) ! 0 = 0"
  by (simp add: cp_distances priv_distances_0)

lemma sorted_first_le_last: "sorted ds \<Longrightarrow> ds \<noteq> [] \<Longrightarrow> ds ! 0 \<le> last ds"
  by (simp add: last_conv_nth sorted_nth_mono)

lemma cp_length_of_nonneg: "0 \<le> length_of (ConstructionPolyline vs c rt)"
proof (cases "self_distances (ConstructionPolyline vs c rt) = []")
  case True
  then show ?thesis by (simp add: length_of_def)
next
  case False
  then have "self_vertices (ConstructionPolyline vs c rt) \<noteq> []"
    using cp_length [of vs c rt] by auto
  then have "self_distances (ConstructionPolyline vs c rt) ! 0 = 0" by (rule cp_first)
  then show ?thesis
    using sorted_first_le_last [OF cp_sorted False] False by (simp add: length_of_def)
qed

lemma cp_invariant: "distances_invariant (ConstructionPolyline vs c rt)"
proof -
  let ?p = "ConstructionPolyline vs c rt"
  have nonneg: "0 \<le> d" if mem: "d \<in> set (self_distances ?p)" for d
  proof -
    obtain i where i: "i < length (self_distances ?p)" "self_distances ?p ! i = d"
      using mem unfolding in_set_conv_nth by blast
    then have ne: "self_vertices ?p \<noteq> []" using cp_length [of vs c rt] by auto
    have "self_distances ?p ! 0 \<le> self_distances ?p ! i"
      using i by (intro sorted_nth_mono cp_sorted) auto
    then show ?thesis using cp_first [OF ne] i by simp
  qed
  have step: "self_distances ?p ! i =
             self_distances ?p ! (i - 1)
               + magnitude (vec_sub (self_vertices ?p ! i) (self_vertices ?p ! (i - 1)))"
    if "0 < i" "i < length (self_vertices ?p)" for i
    using priv_distances_step [OF that] by (simp add: cp_distances)
  show ?thesis
    unfolding distances_invariant_def
    using cp_length [of vs c rt] cp_first [of vs c rt] cp_sorted [of vs c rt]
      cp_length_of_nonneg [of vs c rt] nonneg step
    by blast
qed

lemma priv_vertex_at_ok:
  assumes srt: "sorted (self_distances p)"
    and len: "length (self_distances p) = length (self_vertices p)"
    and ne: "self_vertices p \<noteq> []"
    and le: "d \<le> length_of p"
  shows "\<exists>v. priv_vertex_at p d = Inr v"
proof -
  have dne: "self_distances p \<noteq> []" using len ne by auto
  then have "d \<le> last (self_distances p)" using le by (simp add: length_of_def)
  then have "bisect_left (self_distances p) d < length (self_distances p)"
    by (rule bisect_left_in_range [OF srt dne])
  then show ?thesis
    using ne by (simp add: priv_vertex_at_sorted [OF srt len] Let_def)
qed

lemma priv_vertex_at_no_arith:
  assumes srt: "sorted (self_distances p)"
    and len: "length (self_distances p) = length (self_vertices p)"
  shows "priv_vertex_at p d \<noteq> Inl (ArithmeticError msg)"
  by (simp add: priv_vertex_at_sorted [OF srt len] Let_def)

lemma index_at_between:
  assumes srt: "sorted (self_distances p)"
    and len: "length (self_distances p) = length (self_vertices p)"
    and first: "self_distances p \<noteq> [] \<Longrightarrow> self_distances p ! 0 = 0"
    and pos: "0 < d" and lt: "d < length_of p"
  shows "index_at p d = int (bisect_left (self_distances p) d)
     \<and> 0 < bisect_left (self_distances p) d
     \<and> bisect_left (self_distances p) d < length (self_distances p)
     \<and> self_distances p ! (bisect_left (self_distances p) d - 1) < d
     \<and> d \<le> self_distances p ! bisect_left (self_distances p) d"
proof -
  have ne: "self_distances p \<noteq> []" using pos lt by (auto simp: length_of_def split: if_splits)
  have last: "d \<le> last (self_distances p)" using lt ne by (simp add: length_of_def)
  have a: "bisect_left (self_distances p) d < length (self_distances p)"
    using bisect_left_in_range [OF srt ne last] .
  have b: "0 < bisect_left (self_distances p) d"
    using bisect_left_pos [OF srt ne] first [OF ne] pos by simp
  show ?thesis
    using a b bisect_left_bracket [OF srt b a] pos lt
    by (simp add: index_at_def priv_index_at_def)
qed

lemma math_isclose_refl: "math_isclose a a rel_tol ABS_TOL"
  by (simp add: math_isclose_def ABS_TOL_def max_def)

lemma isclose_refl: "isclose a a rel_tol"
  by (simp add: isclose_def math_isclose_refl)

lemma cp_vertices:
  "self_vertices (ConstructionPolyline vs c rt) =
     (if c \<and> length vs > 2 \<and> \<not> isclose (vs ! 0) (last vs) rt then vs @ [vs ! 0] else vs)"
  by (simp add: ConstructionPolyline_def Let_def)

lemma cp_rel_tol: "self_rel_tol (ConstructionPolyline vs c rt) = rt"
  by (simp add: ConstructionPolyline_def Let_def)

lemma yield_vertices_no_arith:
  assumes "\<And>d. priv_vertex_at p d \<noteq> Inl (ArithmeticError msg)"
  shows "snd (yield_vertices p ds) \<noteq> Some (ArithmeticError msg)"
  using assms by (induction ds) (auto split: sum.splits prod.splits)

lemma divide_count_no_arith:
  assumes "\<And>d. priv_vertex_at p d \<noteq> Inl (ArithmeticError msg)"
  shows "snd (divide_count p count) \<noteq> Some (ArithmeticError msg)"
  using yield_vertices_no_arith [OF assms]
  by (auto simp: divide_count_def linspace_def split: sum.splits)

lemma linspace_samples:
  "0 < segments \<Longrightarrow>
   linspace 0 max_t (segments + 1) =
     Inr (map (\<lambda>k. 0 + real k * ((max_t - 0) / real_of_int (segments + 1 - 1)))
            [0 ..< nat (segments + 1)])"
  by (simp add: linspace_def)

lemma data_inside:
  assumes len: "length (self_distances p) = length (self_vertices p)"
    and i: "0 < i" "i < length (self_vertices p)"
  shows "data p (int i) =
     Inr (self_distances p ! i, self_distances p ! i - self_distances p ! (i - 1),
          self_vertices p ! i)"
proof -
  have ne: "self_vertices p \<noteq> []" using i by auto
  have a: "py_get (self_distances p) (int i - 1) = Inr (self_distances p ! (i - 1))"
    using i len by (simp add: py_get_pred)
  have b: "py_get (self_distances p) (int i) = Inr (self_distances p ! i)"
    using i len by (simp add: py_get_nat)
  have c: "py_get (self_vertices p) (int i) = Inr (self_vertices p ! i)"
    using i by (simp add: py_get_nat)
  have nz: "int i \<noteq> 0" using i by simp
  show ?thesis unfolding data_def by (simp only: ne nz if_False a b c sum.case)
qed

lemma data_first:
  "self_vertices p \<noteq> [] \<Longrightarrow> data p 0 = Inr (0, 0, self_vertices p ! 0)"
  by (simp add: data_def)

lemma magnitude_zero: "magnitude (vec_sub v v) = 0"
  by (simp add: magnitude_def vec_sub_def)

lemma priv_distances_constant:
  assumes "\<forall>k < length vs. vs ! k = v" and "i < length vs"
  shows "priv_distances vs ! i = 0"
  using assms(2)
proof (induction i)
  case 0
  then show ?case by (intro priv_distances_0) auto
next
  case (Suc i)
  then have "priv_distances vs ! Suc i =
      priv_distances vs ! i + magnitude (vec_sub (vs ! Suc i) (vs ! i))"
    using priv_distances_step [of "Suc i" vs] by simp
  then show ?case using Suc assms(1) by (simp add: magnitude_zero)
qed

lemma bisect_left_mono:
  assumes srt: "sorted ds" and le: "d1 \<le> d2"
  shows "bisect_left ds d1 \<le> bisect_left ds d2"
proof (rule ccontr)
  assume "\<not> bisect_left ds d1 \<le> bisect_left ds d2"
  then have lt: "bisect_left ds d2 < bisect_left ds d1" by simp
  then have a: "ds ! bisect_left ds d2 < d1" by (rule bisect_left_below [OF srt])
  have "bisect_left ds d2 < length ds"
    using lt bisect_left_le_length [OF srt, of d1] by simp
  then have "d2 \<le> ds ! bisect_left ds d2" by (intro bisect_left_above [OF srt]) auto
  then show False using a le by simp
qed

lemma bracket_pos_bounds:
  assumes srt: "sorted ds" and ne: "ds \<noteq> []" and first: "ds ! 0 = 0"
    and pos: "0 < d" and lt: "d < last ds"
  shows "real (bisect_left ds d) - 1 < bracket_pos ds d"
    and "bracket_pos ds d \<le> real (bisect_left ds d)"
    and "0 < bisect_left ds d" and "bisect_left ds d < length ds"
proof -
  let ?i = "bisect_left ds d"
  show a: "?i < length ds" using bisect_left_in_range [OF srt ne] lt by simp
  show b: "0 < ?i" using bisect_left_pos [OF srt ne] first pos by simp
  have br: "ds ! (?i - 1) < d" "d \<le> ds ! ?i"
    using bisect_left_bracket [OF srt b a] by simp_all
  define d0 where "d0 = ds ! ?i - ds ! (?i - 1)"
  have d0: "0 < d0" using br by (simp add: d0_def)
  have x0: "0 \<le> (ds ! ?i - d) / d0" using br d0 by simp
  have x1: "(ds ! ?i - d) / d0 < 1" using br d0 by (simp add: d0_def)
  have bp: "bracket_pos ds d = real ?i - (if d0 > 1 / 10 ^ 12 then (ds ! ?i - d) / d0 else 0)"
    using pos by (simp add: bracket_pos_def Let_def d0_def)
  show "real ?i - 1 < bracket_pos ds d" unfolding bp using x1 by simp
  show "bracket_pos ds d \<le> real ?i" unfolding bp using x0 by simp
qed

lemma bracket_pos_nonneg:
  assumes srt: "sorted ds" and ne: "ds \<noteq> []" and first: "ds ! 0 = 0" and lt: "d < last ds"
  shows "0 \<le> bracket_pos ds d"
proof (cases "d \<le> 0")
  case True
  then show ?thesis by (simp add: bracket_pos_def)
next
  case False
  then have pos: "0 < d" by simp
  have "1 \<le> real (bisect_left ds d)"
    using bracket_pos_bounds(3) [OF srt ne first pos lt] by simp
  then show ?thesis using bracket_pos_bounds(1) [OF srt ne first pos lt] by simp
qed

lemma bracket_pos_le:
  assumes srt: "sorted ds" and ne: "ds \<noteq> []" and first: "ds ! 0 = 0" and lt: "d < last ds"
  shows "bracket_pos ds d \<le> real (length ds - 1)"
proof (cases "d \<le> 0")
  case True
  then show ?thesis by (simp add: bracket_pos_def)
next
  case False
  then have pos: "0 < d" by simp
  have "bisect_left ds d \<le> length ds - 1"
    using bracket_pos_bounds(4) [OF srt ne first pos lt] by simp
  then have "real (bisect_left ds d) \<le> real (length ds - 1)" by (simp only: of_nat_le_iff)
  then show ?thesis using bracket_pos_bounds(2) [OF srt ne first pos lt] by simp
qed

lemma bracket_pos_mono:
  assumes srt: "sorted ds" and ne: "ds \<noteq> []" and first: "ds ! 0 = 0"
    and le: "d1 \<le> d2" and lt: "d2 < last ds"
  shows "bracket_pos ds d1 \<le> bracket_pos ds d2"
proof (cases "d1 \<le> 0")
  case True
  then have "bracket_pos ds d1 = 0" by (simp add: bracket_pos_def)
  then show ?thesis using bracket_pos_nonneg [OF srt ne first lt] by simp
next
  case False
  then have p1: "0 < d1" and p2: "0 < d2" using le by simp_all
  have l1: "d1 < last ds" using le lt by simp
  let ?i1 = "bisect_left ds d1"
  let ?i2 = "bisect_left ds d2"
  note B1 = bracket_pos_bounds [OF srt ne first p1 l1]
  note B2 = bracket_pos_bounds [OF srt ne first p2 lt]
  have mono: "?i1 \<le> ?i2" by (rule bisect_left_mono [OF srt le])
  show ?thesis
  proof (cases "?i1 = ?i2")
    case True
    define d0 where "d0 = ds ! ?i2 - ds ! (?i2 - 1)"
    have br: "ds ! (?i2 - 1) < d2" "d2 \<le> ds ! ?i2"
      using bisect_left_bracket [OF srt B2(3) B2(4)] by simp_all
    have d0: "0 < d0" using br by (simp add: d0_def)
    have bp1: "bracket_pos ds d1 = real ?i2 - (if d0 > 1 / 10 ^ 12 then (ds ! ?i2 - d1) / d0 else 0)"
      using p1 True by (simp add: bracket_pos_def Let_def d0_def)
    have bp2: "bracket_pos ds d2 = real ?i2 - (if d0 > 1 / 10 ^ 12 then (ds ! ?i2 - d2) / d0 else 0)"
      using p2 by (simp add: bracket_pos_def Let_def d0_def)
    have "(ds ! ?i2 - d2) / d0 \<le> (ds ! ?i2 - d1) / d0"
      using le d0 by (intro divide_right_mono) simp_all
    then show ?thesis unfolding bp1 bp2 by simp
  next
    case False
    then have "?i1 + 1 \<le> ?i2" using mono by simp
    then have "real ?i1 + 1 \<le> real ?i2" by (metis of_nat_le_iff of_nat_add of_nat_1)
    then show ?thesis using B1(2) B2(1) by simp
  qed
qed

text \<open>Rounding to a double, evaluated at a value whose exponent is known.\<close>

lemma round_double_0: "round_double 0 = 0"
  by (simp add: round_double_def)

lemma log2_power: "log 2 (2 ^ n) = real n"
  by (simp add: log_nat_power)

lemma floor_log2_scaled:
  assumes lo: "2 ^ m \<le> \<bar>x\<bar> * 2 ^ k" and hi: "\<bar>x\<bar> * 2 ^ k < 2 ^ Suc m"
  shows "\<lfloor>log 2 \<bar>x\<bar>\<rfloor> = int m - int k"
proof -
  have nz: "x \<noteq> 0"
  proof
    assume "x = 0"
    then have "(2::real) ^ m \<le> 0" using lo by simp
    moreover have "0 < (2::real) ^ m" by (rule zero_less_power) simp
    ultimately show False by linarith
  qed
  then have pos: "0 < \<bar>x\<bar>" by simp
  have l: "log 2 (\<bar>x\<bar> * 2 ^ k) = log 2 \<bar>x\<bar> + real k"
    using pos by (simp add: log_mult log_nat_power)
  have "log 2 (2 ^ m) \<le> log 2 (\<bar>x\<bar> * 2 ^ k)"
    using lo pos by (subst log_le_cancel_iff) auto
  then have a: "real m \<le> log 2 \<bar>x\<bar> + real k" unfolding l log2_power .
  have "log 2 (\<bar>x\<bar> * 2 ^ k) < log 2 (2 ^ Suc m)"
    using hi pos by (subst log_less_cancel_iff) auto
  then have b: "log 2 \<bar>x\<bar> + real k < real (Suc m)" unfolding l log2_power .
  show ?thesis using a b by (intro floor_unique) auto
qed

lemma round_double_scaled_gen:
  assumes m: "m = 52" and lo: "2 ^ m \<le> \<bar>x\<bar> * 2 ^ k" and hi: "\<bar>x\<bar> * 2 ^ k < 2 ^ Suc m"
  shows "round_double x = real_of_int (round_half_even (x * 2 ^ k)) / 2 ^ k"
proof -
  have nz: "x \<noteq> 0"
  proof
    assume "x = 0"
    then have "(2::real) ^ m \<le> 0" using lo by simp
    moreover have "0 < (2::real) ^ m" by (rule zero_less_power) simp
    ultimately show False by linarith
  qed
  have e: "\<lfloor>log 2 \<bar>x\<bar>\<rfloor> - 52 = - int k" using floor_log2_scaled [OF lo hi] m by simp
  have p: "2 powr (- real k) = 1 / 2 ^ k"
    by (simp add: powr_minus powr_realpow divide_inverse)
  have "round_double x =
      real_of_int (round_half_even (x / 2 powr (- real k))) * 2 powr (- real k)"
    using nz by (simp add: round_double_def e Let_def)
  then show ?thesis unfolding p by simp
qed



lemma round_double_scaled:
  assumes lo: "2 ^ 52 \<le> \<bar>x\<bar> * 2 ^ k" and hi: "\<bar>x\<bar> * 2 ^ k < 2 ^ 53"
  shows "round_double x = real_of_int (round_half_even (x * 2 ^ k)) / 2 ^ k"
  using round_double_scaled_gen [of 52 x k] lo hi by simp

lemma running_distance_shift:
  "running_distance rnd s (rnd (d + s)) k = running_distance rnd s d (Suc k)"
  by (induction k) simp_all

lemma running_distance_exact: "running_distance (\<lambda>x. x) s d k = d + real k * s"
  by (induction k) (simp_all add: algebra_simps)

lemma divide_loop_partial:
  assumes "divide_loop rnd p s tot d v out = Some y"
  shows "\<exists>pts. fst y = out @ pts \<and> fst (snd y) = last (v # pts)
     \<and> (\<forall>k < length pts. running_distance rnd s d k \<le> tot
            \<and> priv_vertex_at p (running_distance rnd s d k) = Inr (pts ! k))
     \<and> (case snd (snd y) of
           None \<Rightarrow> tot < running_distance rnd s d (length pts)
         | Some err \<Rightarrow> running_distance rnd s d (length pts) \<le> tot
             \<and> priv_vertex_at p (running_distance rnd s d (length pts)) = Inl err)"
  using assms
proof (induction rnd p s tot d v out y rule: divide_loop.raw_induct [rotated 1, consumes 1])
  case (1 loop rnd p s tot d v out y)
  note eq = "1.hyps"
  show ?case
  proof (cases "d \<le> tot")
    case False
    then have "y = (out, v, None)" using eq by simp
    then show ?thesis using False by simp
  next
    case le: True
    show ?thesis
    proof (cases "priv_vertex_at p d")
      case (Inl e)
      then have "y = (out, v, Some e)" using eq le by simp
      then show ?thesis using le Inl by simp
    next
      case (Inr v0)
      then have call: "loop rnd p s tot (rnd (d + s)) v0 (out @ [v0]) = Some y"
        using eq le by simp
      obtain pts where pts: "fst y = (out @ [v0]) @ pts" "fst (snd y) = last (v0 # pts)"
        "\<forall>k < length pts. running_distance rnd s (rnd (d + s)) k \<le> tot
            \<and> priv_vertex_at p (running_distance rnd s (rnd (d + s)) k) = Inr (pts ! k)"
        "case snd (snd y) of
           None \<Rightarrow> tot < running_distance rnd s (rnd (d + s)) (length pts)
         | Some err \<Rightarrow> running_distance rnd s (rnd (d + s)) (length pts) \<le> tot
             \<and> priv_vertex_at p (running_distance rnd s (rnd (d + s)) (length pts)) = Inl err"
        using "1.IH" [OF call] by blast
      have idx: "running_distance rnd s d k \<le> tot
            \<and> priv_vertex_at p (running_distance rnd s d k) = Inr ((v0 # pts) ! k)"
        if "k < length (v0 # pts)" for k
      proof (cases k)
        case 0
        then show ?thesis using le Inr by simp
      next
        case (Suc j)
        then have "j < length pts" using that by simp
        then show ?thesis using pts(3) Suc by (simp add: running_distance_shift)
      qed
      have fin: "case snd (snd y) of
           None \<Rightarrow> tot < running_distance rnd s d (length (v0 # pts))
         | Some err \<Rightarrow> running_distance rnd s d (length (v0 # pts)) \<le> tot
             \<and> priv_vertex_at p (running_distance rnd s d (length (v0 # pts))) = Inl err"
      proof -
        have e: "running_distance rnd s (rnd (d + s)) (length pts)
            = running_distance rnd s d (length (v0 # pts))"
          by (simp add: running_distance_shift)
        show ?thesis using pts(4) unfolding e .
      qed
      have "fst y = out @ (v0 # pts)" "fst (snd y) = last (v # v0 # pts)"
        using pts(1,2) by simp_all
      then show ?thesis using idx fin by blast
    qed
  qed
qed

lemma divide_loop_ends:
  assumes c: "0 < c"
    and progress: "\<And>x. lo \<le> x \<Longrightarrow> x \<le> tot \<Longrightarrow> x + c \<le> rnd (x + s)"
    and start: "lo \<le> d"
  shows "\<exists>y. divide_loop rnd p s tot d v out = Some y"
  using start
proof (induction "nat (\<lfloor>(tot - d) / c\<rfloor> + 1)" arbitrary: d v out rule: less_induct)
  case less
  note start = less.prems
  show ?case
  proof (cases "d \<le> tot")
    case False
    then show ?thesis by (subst divide_loop.simps) simp
  next
    case le: True
    show ?thesis
    proof (cases "priv_vertex_at p d")
      case (Inl e)
      then show ?thesis using le by (subst divide_loop.simps) simp
    next
      case (Inr v0)
      have unf: "divide_loop rnd p s tot d v out =
          divide_loop rnd p s tot (rnd (d + s)) v0 (out @ [v0])"
        using le Inr by (subst divide_loop.simps) simp
      have adv: "d + c \<le> rnd (d + s)" by (rule progress [OF start le])
      have start': "lo \<le> rnd (d + s)" using adv start c by linarith
      have "tot - rnd (d + s) \<le> tot - d - c" using adv by simp
      then have "(tot - rnd (d + s)) / c \<le> (tot - d - c) / c"
        using c by (intro divide_right_mono) simp_all
      also have "\<dots> = (tot - d) / c - 1" using c by (simp add: field_simps)
      finally have "(tot - rnd (d + s)) / c \<le> (tot - d) / c - 1" .
      then have "\<lfloor>(tot - rnd (d + s)) / c\<rfloor> \<le> \<lfloor>(tot - d) / c\<rfloor> - 1"
        by (metis floor_mono floor_diff_one)
      moreover have "0 \<le> \<lfloor>(tot - d) / c\<rfloor>" using le c by simp
      ultimately have "nat (\<lfloor>(tot - rnd (d + s)) / c\<rfloor> + 1) < nat (\<lfloor>(tot - d) / c\<rfloor> + 1)"
        by linarith
      then show ?thesis unfolding unf using start' by (rule less.hyps)
    qed
  qed
qed

lemma divide_loop_wf:
  assumes srt: "sorted (self_distances p)"
    and len: "length (self_distances p) = length (self_vertices p)"
    and ne: "self_vertices p \<noteq> []"
    and run: "divide_loop rnd p s (length_of p) d v out = Some y"
  shows "\<exists>pts. y = (out @ pts, last (v # pts), None)
     \<and> (\<forall>k < length pts. running_distance rnd s d k \<le> length_of p
            \<and> priv_vertex_at p (running_distance rnd s d k) = Inr (pts ! k))
     \<and> length_of p < running_distance rnd s d (length pts)"
proof -
  obtain pts where pts: "fst y = out @ pts" "fst (snd y) = last (v # pts)"
    "\<forall>k < length pts. running_distance rnd s d k \<le> length_of p
            \<and> priv_vertex_at p (running_distance rnd s d k) = Inr (pts ! k)"
    "case snd (snd y) of
           None \<Rightarrow> length_of p < running_distance rnd s d (length pts)
         | Some err \<Rightarrow> running_distance rnd s d (length pts) \<le> length_of p
             \<and> priv_vertex_at p (running_distance rnd s d (length pts)) = Inl err"
    using divide_loop_partial [OF run] by blast
  have none: "snd (snd y) = None"
  proof (cases "snd (snd y)")
    case None
    then show ?thesis .
  next
    case (Some err)
    then have "running_distance rnd s d (length pts) \<le> length_of p"
      "priv_vertex_at p (running_distance rnd s d (length pts)) = Inl err"
      using pts(4) by simp_all
    then show ?thesis using priv_vertex_at_ok [OF srt len ne] by fastforce
  qed
  have "y = (out @ pts, last (v # pts), None)"
    using pts(1,2) none by (cases y) auto
  moreover have "length_of p < running_distance rnd s d (length pts)"
    using pts(4) none by simp
  ultimately show ?thesis using pts(3) by blast
qed

lemma divide_by_length_partial:
  assumes srt: "sorted (self_distances p)"
    and len: "length (self_distances p) = length (self_vertices p)"
    and L: "0 \<le> length_of p"
    and two: "2 \<le> length (self_vertices p)"
    and pos: "0 < s"
    and run: "divide_by_length rnd p s fl = Some r"
  shows "\<exists>pts. pts \<noteq> []
     \<and> r = (pts @ (if fl \<and> \<not> isclose (last pts) (last (self_vertices p)) REL_TOL
                    then [last (self_vertices p)] else []), None)
     \<and> (\<forall>k < length pts. running_distance rnd s 0 k \<le> length_of p
            \<and> priv_vertex_at p (running_distance rnd s 0 k) = Inr (pts ! k))
     \<and> length_of p < running_distance rnd s 0 (length pts)"
proof -
  have ne: "self_vertices p \<noteq> []" using two by auto
  obtain y where y: "divide_loop rnd p s (length_of p) 0 NULLVEC [] = Some y"
    using run two pos by (auto simp: divide_by_length_def split: option.splits)
  obtain pts where pts: "y = ([] @ pts, last (NULLVEC # pts), None)"
    "\<forall>k < length pts. running_distance rnd s 0 k \<le> length_of p
            \<and> priv_vertex_at p (running_distance rnd s 0 k) = Inr (pts ! k)"
    "length_of p < running_distance rnd s 0 (length pts)"
    using divide_loop_wf [OF srt len ne y] by blast
  have pne: "pts \<noteq> []" using pts(3) L by (cases pts) auto
  have "r = (pts @ (if fl \<and> \<not> isclose (last pts) (last (self_vertices p)) REL_TOL
                    then [last (self_vertices p)] else []), None)"
    using run two pos y pts(1) pne by (auto simp: divide_by_length_def)
  then show ?thesis using pne pts(2,3) by blast
qed

lemma divide_by_length_ends:
  assumes c: "0 < c"
    and progress: "\<And>x. 0 \<le> x \<Longrightarrow> x \<le> length_of p \<Longrightarrow> x + c \<le> rnd (x + s)"
  shows "\<exists>r. divide_by_length rnd p s fl = Some r"
proof -
  obtain y where "divide_loop rnd p s (length_of p) 0 NULLVEC [] = Some y"
    using divide_loop_ends [of c 0 "length_of p" rnd s 0 p NULLVEC "[]"] c progress by auto
  then show ?thesis
    by (cases y) (auto simp: divide_by_length_def split: option.splits)
qed

lemma divide_by_length_no_arith:
  assumes srt: "sorted (self_distances p)"
    and len: "length (self_distances p) = length (self_vertices p)"
    and run: "divide_by_length rnd p s fl = Some r"
  shows "snd r \<noteq> Some (ArithmeticError msg)"
proof (cases "s \<le> 0 \<or> length (self_vertices p) < 2")
  case True
  then show ?thesis using run by (auto simp: divide_by_length_def split: if_splits)
next
  case False
  then have ne: "self_vertices p \<noteq> []" by auto
  obtain y where y: "divide_loop rnd p s (length_of p) 0 NULLVEC [] = Some y"
    using run False by (auto simp: divide_by_length_def split: option.splits)
  obtain pts where "y = ([] @ pts, last (NULLVEC # pts), None)"
    using divide_loop_wf [OF srt len ne y] by blast
  then show ?thesis using run False y by (auto simp: divide_by_length_def split: if_splits)
qed

text \<open>Exact arithmetic: the loop ends, and the number of points is known.\<close>

lemma divide_by_length_exact:
  assumes srt: "sorted (self_distances p)"
    and len: "length (self_distances p) = length (self_vertices p)"
    and L: "0 \<le> length_of p"
    and two: "2 \<le> length (self_vertices p)"
    and pos: "0 < s"
  shows "\<exists>pts.
     length pts = nat \<lfloor>length_of p / s\<rfloor> + 1
     \<and> (\<forall>k < length pts. real k * s \<le> length_of p
           \<and> vertex_at p (real k * s) = Inr (pts ! k))
     \<and> divide_by_length (\<lambda>x. x) p s fl
         = Some (pts @ (if fl \<and> \<not> isclose (last pts) (last (self_vertices p)) REL_TOL
                        then [last (self_vertices p)] else []), None)"
proof -
  have "\<And>x. x \<le> length_of p \<Longrightarrow> x + s \<le> (\<lambda>x. x) (x + s)" by simp
  then obtain r where r: "divide_by_length (\<lambda>x. x) p s fl = Some r"
    using divide_by_length_ends [OF pos, of p "\<lambda>x. x" s fl] by blast
  obtain pts where pts: "pts \<noteq> []"
    "r = (pts @ (if fl \<and> \<not> isclose (last pts) (last (self_vertices p)) REL_TOL
                    then [last (self_vertices p)] else []), None)"
    "\<forall>k < length pts. running_distance (\<lambda>x. x) s 0 k \<le> length_of p
            \<and> priv_vertex_at p (running_distance (\<lambda>x. x) s 0 k) = Inr (pts ! k)"
    "length_of p < running_distance (\<lambda>x. x) s 0 (length pts)"
    using divide_by_length_partial [OF srt len L two pos r] by blast
  have inr: "real k * s \<le> length_of p \<and> vertex_at p (real k * s) = Inr (pts ! k)"
    if "k < length pts" for k
  proof -
    have "real k * s \<le> length_of p" "priv_vertex_at p (real k * s) = Inr (pts ! k)"
      using pts(3) that by (simp_all add: running_distance_exact)
    moreover have "0 \<le> real k * s" using pos by simp
    ultimately show ?thesis using two by (simp add: vertex_at_def)
  qed
  have beyond: "length_of p < real (length pts) * s"
    using pts(4) by (simp add: running_distance_exact)
  have last_in: "real (length pts - 1) * s \<le> length_of p"
    using inr [of "length pts - 1"] pts(1) by simp
  have "length_of p / s < real (length pts)" using beyond pos by (simp add: pos_divide_less_eq)
  moreover have "real (length pts - 1) \<le> length_of p / s"
    using last_in pos by (simp add: pos_le_divide_eq)
  ultimately have "\<lfloor>length_of p / s\<rfloor> = int (length pts) - 1"
    using pts(1) by (intro floor_unique) (auto simp: of_nat_diff Suc_leI)
  moreover have "0 < length pts" using pts(1) by simp
  ultimately have n: "length pts = nat \<lfloor>length_of p / s\<rfloor> + 1" by linarith
  show ?thesis using n inr r pts(2) by blast
qed

lemma ApproxParamT_Inr:
  assumes "ApproxParamT rnd curve max_t segments = Inr a"
  shows "0 < segments"
    and "self_max_t a = max_t"
    and "self_step a = rnd (max_t / real_of_int segments)"
    and "\<exists>vs. self_polyline a = ConstructionPolyline vs False REL_TOL
           \<and> length vs = nat segments + 1
           \<and> (\<forall>k < length vs. vs ! k = curve (real k * (max_t / real_of_int segments)))"
proof -
  show pos: "0 < segments" using assms by (auto simp: ApproxParamT_def split: if_splits)
  let ?ts = "map (\<lambda>k. 0 + real k * ((max_t - 0) / real_of_int (segments + 1 - 1)))
            [0 ..< nat (segments + 1)]"
  have a: "a = \<lparr> self_polyline = ConstructionPolyline (map curve ?ts) False REL_TOL,
                   self_max_t = max_t, self_step = rnd (max_t / real_of_int segments) \<rparr>"
    using assms pos unfolding ApproxParamT_def linspace_samples [OF pos] by simp
  show "self_max_t a = max_t" "self_step a = rnd (max_t / real_of_int segments)"
    by (simp_all add: a)
  have "length (map curve ?ts) = nat segments + 1" using pos by (simp add: nat_add_distrib)
  moreover have "\<forall>k < length (map curve ?ts).
      map curve ?ts ! k = curve (real k * (max_t / real_of_int segments))"
    by simp
  ultimately show "\<exists>vs. self_polyline a = ConstructionPolyline vs False REL_TOL
           \<and> length vs = nat segments + 1
           \<and> (\<forall>k < length vs. vs ! k = curve (real k * (max_t / real_of_int segments)))"
    using a by (metis approx_param_t.select_convs(1))
qed

lemma approx_polyline:
  assumes "ApproxParamT rnd curve max_t segments = Inr a"
  shows "sorted (self_distances (self_polyline a))"
    and "length (self_distances (self_polyline a)) = nat segments + 1"
    and "length (self_vertices (self_polyline a)) = nat segments + 1"
    and "self_distances (self_polyline a) ! 0 = 0"
    and "0 \<le> length_of (self_polyline a)"
proof -
  obtain vs where vs: "self_polyline a = ConstructionPolyline vs False REL_TOL"
    "length vs = nat segments + 1"
    using ApproxParamT_Inr(4) [OF assms] by blast
  show "sorted (self_distances (self_polyline a))" by (simp add: vs cp_sorted)
  show v: "length (self_vertices (self_polyline a)) = nat segments + 1"
    by (simp add: vs cp_vertices)
  show "length (self_distances (self_polyline a)) = nat segments + 1"
    using v by (simp add: vs cp_length)
  have "self_vertices (self_polyline a) \<noteq> []" using v by auto
  then show "self_distances (self_polyline a) ! 0 = 0" unfolding vs(1) by (rule cp_first)
  show "0 \<le> length_of (self_polyline a)" by (simp add: vs cp_length_of_nonneg)
qed

lemma approx_zero_length:
  assumes A: "ApproxParamT rnd curve 0 segments = Inr a"
  shows "length_of (self_polyline a) = 0"
proof -
  obtain vs where vs: "self_polyline a = ConstructionPolyline vs False REL_TOL"
    "length vs = nat segments + 1"
    "\<forall>k < length vs. vs ! k = curve (real k * (0 / real_of_int segments))"
    using ApproxParamT_Inr(4) [OF A] by blast
  have const: "\<forall>k < length vs. vs ! k = curve 0" using vs(3) by simp
  have ne: "priv_distances vs \<noteq> []" using vs(2) priv_distances_length [of vs] by auto
  have "last (priv_distances vs) = priv_distances vs ! (length vs - 1)"
    using ne by (simp add: last_conv_nth priv_distances_length)
  also have "\<dots> = 0" using vs(2) by (intro priv_distances_constant [OF const]) simp
  finally show ?thesis using ne by (simp add: vs(1) length_of_def cp_distances cp_vertices)
qed

lemma param_t_data:
  assumes A: "ApproxParamT rnd curve max_t segments = Inr a"
    and lt: "d < length_of (self_polyline a)"
  shows "\<exists>station d0 v. data (self_polyline a) (index_at (self_polyline a) d) = Inr (station, d0, v)"
proof -
  note P = approx_polyline [OF A]
  let ?p = "self_polyline a"
  have ne: "self_vertices ?p \<noteq> []" using P(3) by auto
  have len: "length (self_distances ?p) = length (self_vertices ?p)" using P(2,3) by simp
  show ?thesis
  proof (cases "d \<le> 0")
    case True
    then have "index_at ?p d = 0" by (simp add: index_at_def)
    then show ?thesis using data_first [OF ne] by simp
  next
    case False
    then have pos: "0 < d" by simp
    have first: "self_distances ?p \<noteq> [] \<Longrightarrow> self_distances ?p ! 0 = 0" using P(4) by simp
    have I: "index_at ?p d = int (bisect_left (self_distances ?p) d)"
      "0 < bisect_left (self_distances ?p) d"
      "bisect_left (self_distances ?p) d < length (self_distances ?p)"
      using index_at_between [OF P(1) len first pos lt] by simp_all
    show ?thesis
      using data_inside [OF len I(2)] I(3) len unfolding I(1) by simp
  qed
qed

lemma param_t_bounded:
  assumes A: "ApproxParamT rnd curve max_t segments = Inr a"
  shows "\<exists>t. param_t rnd a d = Inr t \<and> t \<le> self_max_t a
           \<and> (length_of (self_polyline a) \<le> d \<longrightarrow> t = self_max_t a)"
proof (cases "length_of (self_polyline a) \<le> d")
  case True
  then show ?thesis by (simp add: param_t_def)
next
  case False
  then obtain station d0 v where
    "data (self_polyline a) (index_at (self_polyline a) d) = Inr (station, d0, v)"
    using param_t_data [OF A, of d] by auto
  then show ?thesis using False by (simp add: param_t_def Let_def)
qed

lemma param_t_nonpositive:
  assumes A: "ApproxParamT rnd curve max_t segments = Inr a"
    and L: "0 < length_of (self_polyline a)"
    and d: "d \<le> 0"
    and r0: "rnd 0 = 0"
  shows "param_t rnd a d = Inr (min max_t 0)"
proof -
  note P = approx_polyline [OF A]
  have mt: "self_max_t a = max_t" using ApproxParamT_Inr [OF A] by simp
  have ne: "self_vertices (self_polyline a) \<noteq> []" using P(3) by auto
  have i: "index_at (self_polyline a) d = 0" using d by (simp add: index_at_def)
  show ?thesis
    using L d by (simp add: param_t_def i data_first [OF ne] mt r0)
qed

lemma param_t_eq:
  assumes A: "ApproxParamT (\<lambda>x. x) curve max_t segments = Inr a"
    and lt: "d < length_of (self_polyline a)"
  shows "param_t (\<lambda>x. x) a d =
     Inr (min max_t (self_step a * bracket_pos (self_distances (self_polyline a)) d))"
proof -
  note P = approx_polyline [OF A]
  let ?p = "self_polyline a"
  let ?ds = "self_distances ?p"
  have mt: "self_max_t a = max_t" using ApproxParamT_Inr [OF A] by simp
  have ne: "self_vertices ?p \<noteq> []" using P(3) by auto
  have len: "length ?ds = length (self_vertices ?p)" using P(2,3) by simp
  show ?thesis
  proof (cases "d \<le> 0")
    case True
    have i: "index_at ?p d = 0" using True by (simp add: index_at_def)
    show ?thesis
      using lt True by (simp add: param_t_def i data_first [OF ne] mt bracket_pos_def)
  next
    case False
    then have pos: "0 < d" by simp
    let ?i = "bisect_left ?ds d"
    have first: "?ds \<noteq> [] \<Longrightarrow> ?ds ! 0 = 0" using P(4) by simp
    have I: "index_at ?p d = int ?i" "0 < ?i" "?i < length ?ds"
      using index_at_between [OF P(1) len first pos lt] by simp_all
    have D: "data ?p (int ?i) = Inr (?ds ! ?i, ?ds ! ?i - ?ds ! (?i - 1), self_vertices ?p ! ?i)"
      using I len by (intro data_inside) simp_all
    have "param_t (\<lambda>x. x) a d =
       Inr (min max_t
             (if ?ds ! ?i - ?ds ! (?i - 1) > 1 / 10 ^ 12
              then self_step a * real ?i
                     - self_step a * (?ds ! ?i - d) / (?ds ! ?i - ?ds ! (?i - 1))
              else self_step a * real ?i))"
      using lt by (simp add: param_t_def I(1) D mt Let_def)
    moreover have "self_step a * bracket_pos ?ds d =
             (if ?ds ! ?i - ?ds ! (?i - 1) > 1 / 10 ^ 12
              then self_step a * real ?i
                     - self_step a * (?ds ! ?i - d) / (?ds ! ?i - ?ds ! (?i - 1))
              else self_step a * real ?i)"
      using pos by (simp add: bracket_pos_def Let_def algebra_simps)
    ultimately show ?thesis by simp
  qed
qed

lemma param_t_monotone_exact:
  assumes A: "ApproxParamT (\<lambda>x. x) curve max_t segments = Inr a"
    and le: "d1 \<le> d2"
  shows "\<exists>t1 t2. param_t (\<lambda>x. x) a d1 = Inr t1 \<and> param_t (\<lambda>x. x) a d2 = Inr t2
           \<and> t1 \<le> t2 \<and> t1 \<le> self_max_t a \<and> t2 \<le> self_max_t a
           \<and> (length_of (self_polyline a) \<le> d2 \<longrightarrow> t2 = self_max_t a)"
proof -
  note P = approx_polyline [OF A]
  let ?p = "self_polyline a"
  let ?ds = "self_distances ?p"
  have mt: "self_max_t a = max_t" and st: "self_step a = max_t / real_of_int segments"
    and seg: "0 < segments"
    using ApproxParamT_Inr [OF A] by simp_all
  have beyond: "param_t (\<lambda>x. x) a d = Inr max_t" if "length_of ?p \<le> d" for d
    using that by (simp add: param_t_def mt)
  have inside: "param_t (\<lambda>x. x) a d = Inr (min max_t (self_step a * bracket_pos ?ds d))"
    if "d < length_of ?p" for d
    using that by (rule param_t_eq [OF A])
  show ?thesis
  proof (cases "length_of ?p \<le> d2")
    case True
    show ?thesis
    proof (cases "length_of ?p \<le> d1")
      case d1: True
      show ?thesis using beyond [OF True] beyond [OF d1] mt by simp
    next
      case False
      then show ?thesis using beyond [OF True] inside [of d1] mt by simp
    qed
  next
    case False
    then have l2: "d2 < length_of ?p" and l1: "d1 < length_of ?p" using le by simp_all
    have ne: "?ds \<noteq> []" using P(2) by auto
    have last2: "d2 < last ?ds" and last1: "d1 < last ?ds"
      using l1 l2 ne by (simp_all add: length_of_def)
    have mono: "bracket_pos ?ds d1 \<le> bracket_pos ?ds d2"
      by (rule bracket_pos_mono [OF P(1) ne P(4) le last2])
    have "min max_t (self_step a * bracket_pos ?ds d1)
          \<le> min max_t (self_step a * bracket_pos ?ds d2)"
    proof (cases "0 \<le> self_step a")
      case True
      then have "self_step a * bracket_pos ?ds d1 \<le> self_step a * bracket_pos ?ds d2"
        using mono by (rule mult_left_mono [rotated])
      then show ?thesis by (simp add: min_le_iff_disj)
    next
      case neg: False
      have n: "real (length ?ds - 1) = real_of_int segments" using P(2) seg by simp
      have top: "self_step a * real (length ?ds - 1) = max_t"
        using seg unfolding n st by simp
      have "max_t \<le> self_step a * bracket_pos ?ds d" if "d < last ?ds" for d
      proof -
        have "bracket_pos ?ds d \<le> real (length ?ds - 1)"
          by (rule bracket_pos_le [OF P(1) ne P(4) that])
        then have "self_step a * real (length ?ds - 1) \<le> self_step a * bracket_pos ?ds d"
          using neg by (intro mult_left_mono_neg) simp_all
        then show ?thesis unfolding top .
      qed
      from this [OF last1] this [OF last2] show ?thesis by simp
    qed
    then show ?thesis using inside [OF l1] inside [OF l2] False mt by simp
  qed
qed

lemma distance_exact:
  assumes A: "ApproxParamT (\<lambda>x. x) curve max_t segments = Inr a"
  shows "(t \<le> 0 \<longrightarrow> distance (\<lambda>x. x) a t = Inr 0)
     \<and> (max_t \<le> t \<and> (0 < t \<or> 0 \<le> max_t) \<longrightarrow>
          distance (\<lambda>x. x) a t = Inr (length_of (self_polyline a)))
     \<and> (0 < t \<and> t < max_t \<longrightarrow>
          (\<exists>index station delta v.
             index = \<lfloor>t / self_step a\<rfloor> + 1
             \<and> py_int (t / self_step a) = \<lfloor>t / self_step a\<rfloor>
             \<and> 1 \<le> index \<and> index \<le> segments
             \<and> data (self_polyline a) index = Inr (station, delta, v)
             \<and> station = self_distances (self_polyline a) ! nat index
             \<and> delta = station - self_distances (self_polyline a) ! nat (index - 1)
             \<and> distance (\<lambda>x. x) a t
                 = Inr (station - delta * (self_step a * real_of_int index - t) / self_step a)))"
proof -
  note P = approx_polyline [OF A]
  have mt: "self_max_t a = max_t" and st: "self_step a = max_t / real_of_int segments"
    and seg: "0 < segments"
    using ApproxParamT_Inr [OF A] by simp_all
  have c1: "distance (\<lambda>x. x) a t = Inr 0" if "t \<le> 0"
    using that by (simp add: distance_def)
  have c2: "distance (\<lambda>x. x) a t = Inr (length_of (self_polyline a))"
    if "max_t \<le> t" "0 < t \<or> 0 \<le> max_t"
  proof (cases "0 < t")
    case True
    then show ?thesis using that mt by (simp add: distance_def)
  next
    case False
    then have "max_t = 0" "t = 0" using that by auto
    then show ?thesis using approx_zero_length [of "\<lambda>x. x" curve segments a] A
      by (simp add: distance_def)
  qed
  have c3: "\<exists>index station delta v.
             index = \<lfloor>t / self_step a\<rfloor> + 1
             \<and> py_int (t / self_step a) = \<lfloor>t / self_step a\<rfloor>
             \<and> 1 \<le> index \<and> index \<le> segments
             \<and> data (self_polyline a) index = Inr (station, delta, v)
             \<and> station = self_distances (self_polyline a) ! nat index
             \<and> delta = station - self_distances (self_polyline a) ! nat (index - 1)
             \<and> distance (\<lambda>x. x) a t
                 = Inr (station - delta * (self_step a * real_of_int index - t) / self_step a)"
    if t: "0 < t" "t < max_t"
  proof -
    define index where "index = \<lfloor>t / self_step a\<rfloor> + 1"
    have sp: "0 < self_step a" using t seg st by simp
    have q: "0 < t / self_step a" using t sp by simp
    have pi: "py_int (t / self_step a) = \<lfloor>t / self_step a\<rfloor>"
      using q by (simp add: py_int_def)
    have lo: "1 \<le> index" using q unfolding index_def by simp
    have "t / self_step a < real_of_int segments"
      using t seg sp by (simp add: st field_simps)
    then have "\<lfloor>t / self_step a\<rfloor> < segments" by (simp add: floor_less_iff)
    then have hi: "index \<le> segments" unfolding index_def by simp
    have n: "0 < nat index" "nat index < length (self_vertices (self_polyline a))"
      using lo hi P(3) by auto
    have len: "length (self_distances (self_polyline a)) = length (self_vertices (self_polyline a))"
      using P(2,3) by simp
    have idx: "int (nat index) = index" using lo by simp
    have pred: "nat index - 1 = nat (index - 1)" using lo by simp
    have d: "data (self_polyline a) index =
       Inr (self_distances (self_polyline a) ! nat index,
            self_distances (self_polyline a) ! nat index
              - self_distances (self_polyline a) ! nat (index - 1),
            self_vertices (self_polyline a) ! nat index)"
      using data_inside [OF len n] unfolding idx pred .
    have nz: "self_step a \<noteq> 0" using sp by simp
    have "distance (\<lambda>x. x) a t =
       Inr (self_distances (self_polyline a) ! nat index
            - (self_distances (self_polyline a) ! nat index
                 - self_distances (self_polyline a) ! nat (index - 1))
              * (self_step a * real_of_int index - t) / self_step a)"
      using t mt nz d unfolding index_def
      by (simp add: distance_def pi Let_def)
    then show ?thesis using pi lo hi d index_def by blast
  qed
  show ?thesis using c1 c2 c3 by blast
qed

lemma rd_1: "round_double (1) = 1"
  by (subst round_double_scaled [where k = 52]) (simp_all add: round_half_even_def)

lemma rd_2: "round_double (2) = 2"
  by (subst round_double_scaled [where k = 51]) (simp_all add: round_half_even_def)

lemma rd_neg_1: "round_double (- 1) = - 1"
  by (subst round_double_scaled [where k = 52]) (simp_all add: round_half_even_def)

lemma rd_h: "round_double (3602879701896397 / 18014398509481984) = 3602879701896397 / 18014398509481984"
  by (subst round_double_scaled [where k = 55]) (simp_all add: round_half_even_def)

lemma rd_h_minus: "round_double (236118324143482273791 / 1180591620717411303424) = 3602879701896397 / 18014398509481984"
  by (subst round_double_scaled [where k = 55]) (simp_all add: round_half_even_def)

lemma rd_h_sq: "round_double (12980742146337070512478121581609 / 324518553658426726783156020576256) = 1441151880758559 / 36028797018963968"
  by (subst round_double_scaled [where k = 57]) (simp_all add: round_half_even_def)

lemma rd_h_quot: "round_double (1441151880758559 / 7205759403792794) = 7205759403792795 / 36028797018963968"
  by (subst round_double_scaled [where k = 55]) (simp_all add: round_half_even_def)

lemma rd_h_diff: "round_double (- (1 / 36028797018963968)) = - (1 / 36028797018963968)"
  by (subst round_double_scaled [where k = 107]) (simp_all add: round_half_even_def)









lemma divide_by_length_exact_total:
  assumes inv: "distances_invariant p"
  shows "\<exists>out e. divide_by_length (\<lambda>x. x) p s fl = Some (out, e)
           \<and> e \<noteq> Some (ArithmeticError msg)"
proof (cases "s \<le> 0 \<or> length (self_vertices p) < 2")
  case True
  then show ?thesis by (auto simp: divide_by_length_def)
next
  case False
  have srt: "sorted (self_distances p)"
    and len: "length (self_distances p) = length (self_vertices p)"
    and L: "0 \<le> length_of p"
    using inv by (simp_all add: distances_invariant_def)
  have two: "2 \<le> length (self_vertices p)" and pos: "0 < s" using False by auto
  show ?thesis using divide_by_length_exact [OF srt len L two pos, of fl] by auto
qed





section \<open>Evaluation of concrete polylines\<close>

lemma magnitude_axis_x: "magnitude (Vec3 a 0 0) = \<bar>a\<bar>"
  by (simp add: magnitude_def)

lemma magnitude_axis_y: "magnitude (Vec3 0 b 0) = \<bar>b\<bar>"
  by (simp add: magnitude_def)

lemmas eval_distances =
  priv_distances_def NULLVEC_def vec_sub_def Let_def magnitude_axis_x magnitude_axis_y

lemmas eval_lerp = lerp_def vec_add_def vec_sub_def vec_mul_def

lemma scenario3_polyline:
  "ConstructionPolyline [Vec3 0 0 0, Vec3 1 0 0, Vec3 1 0 0, Vec3 2 0 0] False REL_TOL =
     \<lparr> self_rel_tol = REL_TOL,
       self_vertices = [Vec3 0 0 0, Vec3 1 0 0, Vec3 1 0 0, Vec3 2 0 0],
       self_distances = [0, 1, 1, 2] \<rparr>"
  by (simp add: ConstructionPolyline_def eval_distances)

lemma scenario3_bisect: "bisect_left [0, 1, 1, 2] (3 / 2) = 3"
  by (simp add: bisect_left_def bisect_left_loop.simps)

lemma square_polyline:
  "ConstructionPolyline [Vec3 0 0 0, Vec3 3 0 0, Vec3 3 4 0, Vec3 0 4 0] True REL_TOL =
     \<lparr> self_rel_tol = REL_TOL,
       self_vertices = [Vec3 0 0 0, Vec3 3 0 0, Vec3 3 4 0, Vec3 0 4 0, Vec3 0 0 0],
       self_distances = [0, 3, 7, 10, 14] \<rparr>"
  by (simp add: ConstructionPolyline_def eval_distances isclose_def math_isclose_def
      REL_TOL_def ABS_TOL_def)

lemma square_slice:
  "getitem_slice
     \<lparr> self_rel_tol = REL_TOL,
       self_vertices = [Vec3 0 0 0, Vec3 3 0 0, Vec3 3 4 0, Vec3 0 4 0, Vec3 0 0 0],
       self_distances = [0, 3, 7, 10, 14] \<rparr> (Some 1) (Some 3) None =
   Inr \<lparr> self_rel_tol = REL_TOL, self_vertices = [Vec3 3 0 0, Vec3 3 4 0],
         self_distances = [0, 4] \<rparr>"
  by (simp add: getitem_slice_def py_slice_def slice_indices_def slice_range.simps
      ConstructionPolyline_def eval_distances)

lemma lshape_polyline:
  "ConstructionPolyline [Vec3 0 0 0, Vec3 3 0 0, Vec3 3 4 0] False REL_TOL =
     \<lparr> self_rel_tol = REL_TOL,
       self_vertices = [Vec3 0 0 0, Vec3 3 0 0, Vec3 3 4 0],
       self_distances = [0, 3, 7] \<rparr>"
  by (simp add: ConstructionPolyline_def eval_distances)

lemmas eval_vertex_at =
  vertex_at_def length_of_def priv_vertex_at_def priv_index_at_def bisect_left_def
  bisect_left_loop.simps py_get_def skip_coincident.simps eval_lerp

lemma lshape_vertex_at_5:
  "vertex_at \<lparr> self_rel_tol = REL_TOL,
       self_vertices = [Vec3 0 0 0, Vec3 3 0 0, Vec3 3 4 0],
       self_distances = [0, 3, 7] \<rparr> 5 = Inr (Vec3 3 2 0)"
  by (simp add: eval_vertex_at)

lemma single_polyline:
  "ConstructionPolyline [Vec3 1 1 0] False REL_TOL =
     \<lparr> self_rel_tol = REL_TOL, self_vertices = [Vec3 1 1 0], self_distances = [0] \<rparr>"
  by (simp add: ConstructionPolyline_def eval_distances)

lemma pair_polyline:
  "ConstructionPolyline [Vec3 0 0 0, Vec3 0 0 0] False REL_TOL =
     \<lparr> self_rel_tol = REL_TOL, self_vertices = [Vec3 0 0 0, Vec3 0 0 0],
       self_distances = [0, 0] \<rparr>"
  by (simp add: ConstructionPolyline_def eval_distances)

lemma scenario3_at_1:
  "priv_vertex_at \<lparr> self_rel_tol = REL_TOL,
       self_vertices = [Vec3 0 0 0, Vec3 1 0 0, Vec3 1 0 0, Vec3 2 0 0],
       self_distances = [0, 1, 1, 2] \<rparr> 1 = Inr (Vec3 1 0 0)
   \<and> priv_index_at \<lparr> self_rel_tol = REL_TOL,
       self_vertices = [Vec3 0 0 0, Vec3 1 0 0, Vec3 1 0 0, Vec3 2 0 0],
       self_distances = [0, 1, 1, 2] \<rparr> 1 = 1"
  by (simp add: priv_vertex_at_def priv_index_at_def bisect_left_def bisect_left_loop.simps
      py_get_def skip_coincident.simps eval_lerp)

lemma line_approx:
  "ApproxParamT round_double line_curve 4 2 =
     Inr \<lparr> self_polyline =
             \<lparr> self_rel_tol = REL_TOL,
               self_vertices = [Vec3 0 0 0, Vec3 2 0 0, Vec3 4 0 0],
               self_distances = [0, 2, 4] \<rparr>,
           self_max_t = 4, self_step = 2 \<rparr>"
  by (simp add: ApproxParamT_def linspace_def upt_rec line_curve_def
      ConstructionPolyline_def eval_distances rd_2)

lemma reversed_line_approx:
  "ApproxParamT round_double line_curve (-1) 1 =
     Inr \<lparr> self_polyline =
             \<lparr> self_rel_tol = REL_TOL,
               self_vertices = [Vec3 0 0 0, Vec3 (-1) 0 0],
               self_distances = [0, 1] \<rparr>,
           self_max_t = -1, self_step = -1 \<rparr>"
  by (simp add: ApproxParamT_def linspace_def upt_rec line_curve_def
      ConstructionPolyline_def eval_distances rd_neg_1)

lemma fifth_approx:
  "ApproxParamT round_double line_curve (3602879701896397 / 18014398509481984) 1 =
     Inr \<lparr> self_polyline =
             \<lparr> self_rel_tol = REL_TOL,
               self_vertices = [Vec3 0 0 0, Vec3 (3602879701896397 / 18014398509481984) 0 0],
               self_distances = [0, 3602879701896397 / 18014398509481984] \<rparr>,
           self_max_t = 3602879701896397 / 18014398509481984,
           self_step = 3602879701896397 / 18014398509481984 \<rparr>"
  by (simp add: ApproxParamT_def linspace_def upt_rec line_curve_def
      ConstructionPolyline_def eval_distances rd_h)

lemmas eval_param_t =
  param_t_def length_of_def index_at_def priv_index_at_def bisect_left_def
  bisect_left_loop.simps data_def py_get_def round_double_0

lemma fifth_param_t_0:
  "param_t round_double
     \<lparr> self_polyline =
             \<lparr> self_rel_tol = REL_TOL,
               self_vertices = [Vec3 0 0 0, Vec3 (3602879701896397 / 18014398509481984) 0 0],
               self_distances = [0, 3602879701896397 / 18014398509481984] \<rparr>,
           self_max_t = 3602879701896397 / 18014398509481984,
           self_step = 3602879701896397 / 18014398509481984 \<rparr> 0 = Inr 0"
  by (simp add: eval_param_t)

lemma fifth_param_t_tiny:
  "param_t round_double
     \<lparr> self_polyline =
             \<lparr> self_rel_tol = REL_TOL,
               self_vertices = [Vec3 0 0 0, Vec3 (3602879701896397 / 18014398509481984) 0 0],
               self_distances = [0, 3602879701896397 / 18014398509481984] \<rparr>,
           self_max_t = 3602879701896397 / 18014398509481984,
           self_step = 3602879701896397 / 18014398509481984 \<rparr> (1 / 2 ^ 70)
   = Inr (- (1 / 2 ^ 55))"
  by (simp add: eval_param_t rd_h rd_h_minus rd_h_sq rd_h_quot rd_h_diff)

lemma line_param_t:
  "param_t round_double \<lparr> self_polyline =
             \<lparr> self_rel_tol = REL_TOL,
               self_vertices = [Vec3 0 0 0, Vec3 2 0 0, Vec3 4 0 0],
               self_distances = [0, 2, 4] \<rparr>,
           self_max_t = 4, self_step = 2 \<rparr> 1 = Inr 1
   \<and> param_t round_double \<lparr> self_polyline =
             \<lparr> self_rel_tol = REL_TOL,
               self_vertices = [Vec3 0 0 0, Vec3 2 0 0, Vec3 4 0 0],
               self_distances = [0, 2, 4] \<rparr>,
           self_max_t = 4, self_step = 2 \<rparr> 9 = Inr 4"
  by (simp add: eval_param_t rd_1 rd_2)




lemmas eval_divide_by_length =
  divide_by_length_def length_of_def divide_loop.simps priv_vertex_at_def
  priv_index_at_def bisect_left_def bisect_left_loop.simps py_get_def skip_coincident.simps
  eval_lerp NULLVEC_def isclose_def math_isclose_def REL_TOL_def ABS_TOL_def






lemma scenario3_divide:
  "divide_by_length round_double \<lparr> self_rel_tol = REL_TOL,
       self_vertices = [Vec3 0 0 0, Vec3 1 0 0, Vec3 1 0 0, Vec3 2 0 0],
       self_distances = [0, 1, 1, 2] \<rparr> 1 True =
   Some ([Vec3 0 0 0, Vec3 1 0 0, Vec3 2 0 0], None)"
  by (simp add: eval_divide_by_length rd_1 rd_2 round_double_scaled [where k = 51] round_half_even_def)




lemma reversed_line_param_t:
  "param_t round_double
     \<lparr> self_polyline =
             \<lparr> self_rel_tol = REL_TOL,
               self_vertices = [Vec3 0 0 0, Vec3 (-1) 0 0],
               self_distances = [0, 1] \<rparr>,
           self_max_t = -1, self_step = -1 \<rparr> (-5) = Inr (-1)"
  by (simp add: eval_param_t)


section \<open>The claims\<close>

text \<open>
  C2. The polyline of the vertices \<open>(0,0), (1,0), (1,0), (2,0)\<close> has the duplicate
  vertex \<open>(1,0)\<close>, so its distances are \<open>0, 1, 1, 2\<close>. At the distance \<open>1.5\<close> the
  search gives the index \<open>3\<close>: the bracket is the one of the vertices \<open>2\<close> and \<open>3\<close>,
  not the bracket of length zero before it, and \<^verbatim>\<open>vertex_at\<close> returns the point
  \<open>(1.5, 0)\<close>, half way between \<open>(1,0)\<close> and \<open>(2,0)\<close>.
\<close>

theorem point_at_duplicate_vertex:
  "vertex_at (ConstructionPolyline [Vec3 0 0 0, Vec3 1 0 0, Vec3 1 0 0, Vec3 2 0 0] False REL_TOL)
     (3 / 2) = Inr (Vec3 (3 / 2) 0 0)
   \<and> priv_index_at
        (ConstructionPolyline [Vec3 0 0 0, Vec3 1 0 0, Vec3 1 0 0, Vec3 2 0 0] False REL_TOL)
        (3 / 2) = 3
   \<and> lerp (Vec3 1 0 0) (Vec3 2 0 0) (1 / 2) = Vec3 (3 / 2) 0 0"
  unfolding scenario3_polyline
  by (simp add: vertex_at_def length_of_def priv_vertex_at_def priv_index_at_def
      scenario3_bisect py_get_def skip_coincident.simps eval_lerp)

text \<open>
  C4. Every polyline the constructor builds, from any vertices, closed or not, and
  every polyline a slice of it gives, satisfies the invariant of the distance array:
  as many distances as vertices, the first distance zero, each further distance the
  one before it plus the length of its segment; so the distances are non-decreasing
  and the length is not negative.
\<close>

theorem constructed_distances_invariant:
  "distances_invariant (ConstructionPolyline vertices close rel_tol)
   \<and> (\<forall>q. getitem_slice (ConstructionPolyline vertices close rel_tol) start stop step = Inr q
          \<longrightarrow> distances_invariant q)"
  by (auto simp: cp_invariant getitem_slice_def split: sum.splits)


theorem constructed_distances_invariant_witness:
  "distances_invariant
     (ConstructionPolyline [Vec3 0 0 0, Vec3 3 0 0, Vec3 3 4 0, Vec3 0 4 0] True REL_TOL)
   \<and> self_distances
       (ConstructionPolyline [Vec3 0 0 0, Vec3 3 0 0, Vec3 3 4 0, Vec3 0 4 0] True REL_TOL)
       = [0, 3, 7, 10, 14]
   \<and> (\<exists>q. getitem_slice
            (ConstructionPolyline [Vec3 0 0 0, Vec3 3 0 0, Vec3 3 4 0, Vec3 0 4 0] True REL_TOL)
            (Some 1) (Some 3) None = Inr q
          \<and> self_distances q = [0, 4] \<and> distances_invariant q)"
  using constructed_distances_invariant
    [of "[Vec3 0 0 0, Vec3 3 0 0, Vec3 3 4 0, Vec3 0 4 0]" True REL_TOL "Some 1" "Some 3" None]
  by (simp add: square_polyline square_slice)

text \<open>
  C3. On a constructed polyline \<^verbatim>\<open>vertex_at\<close> raises the \<^verbatim>\<open>ValueError\<close> "distance out
  of range" exactly when the distance is negative or greater than the length; it raises
  the \<^verbatim>\<open>ValueError\<close> "not enough vertices for interpolation" exactly when the distance
  is in range and the polyline has fewer than two vertices; and it returns a point
  exactly when the distance is in range and there are at least two vertices.
\<close>

theorem vertex_at_errors:
  "(vertex_at (ConstructionPolyline vertices close rel_tol) d
      = Inl (ValueError ''distance out of range'')
    \<longleftrightarrow> d < 0 \<or> d > length_of (ConstructionPolyline vertices close rel_tol))
   \<and> (vertex_at (ConstructionPolyline vertices close rel_tol) d
        = Inl (ValueError ''not enough vertices for interpolation'')
      \<longleftrightarrow> 0 \<le> d \<and> d \<le> length_of (ConstructionPolyline vertices close rel_tol)
          \<and> length (self_vertices (ConstructionPolyline vertices close rel_tol)) < 2)
   \<and> ((\<exists>v. vertex_at (ConstructionPolyline vertices close rel_tol) d = Inr v)
      \<longleftrightarrow> 0 \<le> d \<and> d \<le> length_of (ConstructionPolyline vertices close rel_tol)
          \<and> 2 \<le> length (self_vertices (ConstructionPolyline vertices close rel_tol)))"
proof -
  let ?p = "ConstructionPolyline vertices close rel_tol"
  have ok: "\<exists>v. priv_vertex_at ?p d = Inr v"
    if "d \<le> length_of ?p" "2 \<le> length (self_vertices ?p)"
    using that by (intro priv_vertex_at_ok cp_sorted cp_length) auto
  show ?thesis
  proof (cases "d < 0 \<or> d > length_of ?p")
    case True
    then show ?thesis by (auto simp: vertex_at_def)
  next
    case inr: False
    show ?thesis
    proof (cases "length (self_vertices ?p) < 2")
      case True
      then show ?thesis using inr by (auto simp: vertex_at_def)
    next
      case False
      then obtain v where "priv_vertex_at ?p d = Inr v" using ok inr by fastforce
      then show ?thesis using inr False by (auto simp: vertex_at_def)
    qed
  qed
qed


theorem vertex_at_errors_witness:
  "vertex_at (ConstructionPolyline [Vec3 0 0 0, Vec3 3 0 0, Vec3 3 4 0] False REL_TOL) 5
     = Inr (Vec3 3 2 0)
   \<and> vertex_at (ConstructionPolyline [Vec3 0 0 0, Vec3 3 0 0, Vec3 3 4 0] False REL_TOL) 8
     = Inl (ValueError ''distance out of range'')
   \<and> vertex_at (ConstructionPolyline [Vec3 0 0 0, Vec3 3 0 0, Vec3 3 4 0] False REL_TOL) (-1)
     = Inl (ValueError ''distance out of range'')
   \<and> vertex_at (ConstructionPolyline [Vec3 1 1 0] False REL_TOL) 0
     = Inl (ValueError ''not enough vertices for interpolation'')
   \<and> vertex_at (ConstructionPolyline [Vec3 1 1 0] False REL_TOL) 1
     = Inl (ValueError ''distance out of range'')"
  using vertex_at_errors [of "[Vec3 0 0 0, Vec3 3 0 0, Vec3 3 4 0]" False REL_TOL 8]
    vertex_at_errors [of "[Vec3 1 1 0]" False REL_TOL 0]
    vertex_at_errors [of "[Vec3 0 0 0, Vec3 3 0 0, Vec3 3 4 0]" False REL_TOL 5]
  unfolding lshape_polyline single_polyline
  by (simp add: lshape_vertex_at_5) (simp add: vertex_at_def length_of_def)


text \<open>
  C1, as amended. On a constructed polyline \<^verbatim>\<open>index_at\<close> returns \<open>0\<close> for a distance
  that is not positive; for a positive distance that is at least the length it returns
  the last valid index (\<open>0\<close> when the polyline is empty); and for a distance strictly
  between \<open>0\<close> and the length it returns the index of the first vertex whose
  cumulative distance is at least the distance.
\<close>

theorem index_at_clamped:
  "(d \<le> 0 \<longrightarrow> index_at (ConstructionPolyline vertices close rel_tol) d = 0)
   \<and> (0 < d \<and> length_of (ConstructionPolyline vertices close rel_tol) \<le> d \<longrightarrow>
        index_at (ConstructionPolyline vertices close rel_tol) d
          = max 0 (len (ConstructionPolyline vertices close rel_tol) - 1))
   \<and> (0 < d \<and> d < length_of (ConstructionPolyline vertices close rel_tol) \<longrightarrow>
        (\<exists>i. index_at (ConstructionPolyline vertices close rel_tol) d = int i
           \<and> 0 < i
           \<and> i < length (self_vertices (ConstructionPolyline vertices close rel_tol))
           \<and> d \<le> self_distances (ConstructionPolyline vertices close rel_tol) ! i
           \<and> (\<forall>j < i. self_distances (ConstructionPolyline vertices close rel_tol) ! j < d)))"
proof -
  let ?p = "ConstructionPolyline vertices close rel_tol"
  have first: "self_distances ?p ! 0 = 0" if "self_distances ?p \<noteq> []"
    using that cp_length [of vertices close rel_tol] by (intro cp_first) auto
  have "\<exists>i. index_at ?p d = int i \<and> 0 < i \<and> i < length (self_vertices ?p)
           \<and> d \<le> self_distances ?p ! i \<and> (\<forall>j < i. self_distances ?p ! j < d)"
    if "0 < d" "d < length_of ?p"
  proof -
    let ?i = "bisect_left (self_distances ?p) d"
    have b: "index_at ?p d = int ?i \<and> 0 < ?i \<and> ?i < length (self_distances ?p)
        \<and> self_distances ?p ! (?i - 1) < d \<and> d \<le> self_distances ?p ! ?i"
      using index_at_between [OF cp_sorted cp_length first that] by simp
    have "\<forall>j < ?i. self_distances ?p ! j < d"
      using bisect_left_below [OF cp_sorted] by blast
    with b show ?thesis using cp_length [of vertices close rel_tol] by auto
  qed
  then show ?thesis by (auto simp: index_at_def)
qed

theorem index_at_clamped_witness:
  "index_at (ConstructionPolyline [Vec3 0 0 0, Vec3 3 0 0, Vec3 3 4 0] False REL_TOL) (-1) = 0
   \<and> index_at (ConstructionPolyline [Vec3 0 0 0, Vec3 3 0 0, Vec3 3 4 0] False REL_TOL) 7 = 2
   \<and> index_at (ConstructionPolyline [Vec3 0 0 0, Vec3 3 0 0, Vec3 3 4 0] False REL_TOL) 3 = 1
   \<and> index_at (ConstructionPolyline [Vec3 0 0 0, Vec3 3 0 0, Vec3 3 4 0] False REL_TOL) 5 = 2
   \<and> length_of (ConstructionPolyline [Vec3 0 0 0, Vec3 3 0 0, Vec3 3 4 0] False REL_TOL) = 7"
  using index_at_clamped [of "-1" "[Vec3 0 0 0, Vec3 3 0 0, Vec3 3 4 0]" False REL_TOL]
    index_at_clamped [of 7 "[Vec3 0 0 0, Vec3 3 0 0, Vec3 3 4 0]" False REL_TOL]
    index_at_clamped [of 5 "[Vec3 0 0 0, Vec3 3 0 0, Vec3 3 4 0]" False REL_TOL]
  unfolding lshape_polyline
  by (simp add: index_at_def length_of_def len_def priv_index_at_def bisect_left_def
      bisect_left_loop.simps)

text \<open>
  C1 as stated fails where both of its first two cases apply: the polyline of two
  coincident vertices has the length \<open>0\<close>, so the distance \<open>0\<close> is at least the
  length, and \<^verbatim>\<open>index_at\<close> returns \<open>0\<close>, not the last valid index \<open>1\<close>.
\<close>

theorem index_at_zero_length_counterexample:
  "length_of (ConstructionPolyline [Vec3 0 0 0, Vec3 0 0 0] False REL_TOL) \<le> 0
   \<and> index_at (ConstructionPolyline [Vec3 0 0 0, Vec3 0 0 0] False REL_TOL) 0 = 0
   \<and> max 0 (len (ConstructionPolyline [Vec3 0 0 0, Vec3 0 0 0] False REL_TOL) - 1) = 1
   \<and> index_at (ConstructionPolyline [Vec3 0 0 0, Vec3 0 0 0] False REL_TOL) 0
       \<noteq> max 0 (len (ConstructionPolyline [Vec3 0 0 0, Vec3 0 0 0] False REL_TOL) - 1)"
  unfolding pair_polyline
  by (simp add: index_at_def length_of_def len_def)

text \<open>
  C8, as amended. A polyline built with \<^verbatim>\<open>close=True\<close> is closed exactly when the
  input has more than two vertices. Closing is idempotent: when the first and the last
  vertex of the input are equal within the relative tolerance, no vertex is appended,
  and building a closed polyline from the vertices of a closed polyline gives the same
  polyline.
\<close>

theorem close_is_closed:
  "(is_closed (ConstructionPolyline vertices True rel_tol) \<longleftrightarrow> 2 < length vertices)
   \<and> (vertices \<noteq> [] \<and> isclose (vertices ! 0) (last vertices) rel_tol \<longrightarrow>
        self_vertices (ConstructionPolyline vertices True rel_tol) = vertices)
   \<and> ConstructionPolyline (self_vertices (ConstructionPolyline vertices True rel_tol)) True rel_tol
       = ConstructionPolyline vertices True rel_tol"
proof -
  have a: "is_closed (ConstructionPolyline vertices True rel_tol) \<longleftrightarrow> 2 < length vertices"
    by (auto simp: is_closed_def cp_vertices cp_rel_tol nth_append isclose_refl)
  have b: "self_vertices (ConstructionPolyline vertices True rel_tol) = vertices"
    if "isclose (vertices ! 0) (last vertices) rel_tol"
    using that by (simp add: cp_vertices)
  have c: "ConstructionPolyline (self_vertices (ConstructionPolyline vertices True rel_tol)) True rel_tol
       = ConstructionPolyline vertices True rel_tol"
    by (auto simp: ConstructionPolyline_def Let_def nth_append isclose_refl)
  show ?thesis using a b c by blast
qed

theorem close_is_closed_witness:
  "is_closed (ConstructionPolyline [Vec3 0 0 0, Vec3 3 0 0, Vec3 3 4 0, Vec3 0 4 0] True REL_TOL)
   \<and> self_vertices
       (ConstructionPolyline [Vec3 0 0 0, Vec3 3 0 0, Vec3 3 4 0, Vec3 0 4 0] True REL_TOL)
       = [Vec3 0 0 0, Vec3 3 0 0, Vec3 3 4 0, Vec3 0 4 0, Vec3 0 0 0]
   \<and> isclose (Vec3 0 0 0) (Vec3 0 0 0) REL_TOL
   \<and> self_vertices
       (ConstructionPolyline [Vec3 0 0 0, Vec3 3 0 0, Vec3 3 4 0, Vec3 0 4 0, Vec3 0 0 0]
          True REL_TOL)
       = [Vec3 0 0 0, Vec3 3 0 0, Vec3 3 4 0, Vec3 0 4 0, Vec3 0 0 0]"
  using close_is_closed [of "[Vec3 0 0 0, Vec3 3 0 0, Vec3 3 4 0, Vec3 0 4 0]" REL_TOL]
    close_is_closed [of "[Vec3 0 0 0, Vec3 3 0 0, Vec3 3 4 0, Vec3 0 4 0, Vec3 0 0 0]" REL_TOL]
  by (simp add: square_polyline isclose_refl)

text \<open>
  C8 as stated fails for an input of two vertices: the constructor closes a polyline
  only when it has more than two vertices, and \<^verbatim>\<open>is_closed\<close> is false for a polyline
  of two vertices.
\<close>

theorem close_two_vertices_counterexample:
  "\<not> is_closed (ConstructionPolyline [Vec3 0 0 0, Vec3 1 0 0] True REL_TOL)
   \<and> self_vertices (ConstructionPolyline [Vec3 0 0 0, Vec3 1 0 0] True REL_TOL)
       = [Vec3 0 0 0, Vec3 1 0 0]"
  by (simp add: is_closed_def cp_vertices)

text \<open>
  C9. On a polyline whose distance array satisfies the invariant, the
  \<^verbatim>\<open>ArithmeticError\<close> of \<^verbatim>\<open>_vertex_at\<close> is never raised, whatever the distance: not by
  \<^verbatim>\<open>_vertex_at\<close> itself, not by \<^verbatim>\<open>vertex_at\<close>, not by \<^verbatim>\<open>divide\<close>, and not by
  \<^verbatim>\<open>divide_by_length\<close>, whatever the rounding of its running distance; in exact
  arithmetic \<^verbatim>\<open>divide_by_length\<close> always ends. Whenever the search gives an index inside
  the array, the bracket it opens has a distance strictly smaller at its start than at
  its end.
\<close>

theorem no_internal_inconsistency:
  assumes "distances_invariant p"
  shows "priv_vertex_at p d \<noteq> Inl (ArithmeticError msg)
     \<and> vertex_at p d \<noteq> Inl (ArithmeticError msg)
     \<and> snd (divide_count p count) \<noteq> Some (ArithmeticError msg)
     \<and> (\<forall>r. divide_by_length rnd p step force_last = Some r
           \<longrightarrow> snd r \<noteq> Some (ArithmeticError msg))
     \<and> (\<exists>out e. divide_by_length (\<lambda>x. x) p step force_last = Some (out, e)
           \<and> e \<noteq> Some (ArithmeticError msg))
     \<and> (\<forall>i. priv_index_at p d = int i \<and> 0 < i \<and> i < length (self_distances p) \<longrightarrow>
           self_distances p ! (i - 1) < self_distances p ! i)"
proof -
  have srt: "sorted (self_distances p)"
    and len: "length (self_distances p) = length (self_vertices p)"
    using assms by (simp_all add: distances_invariant_def)
  have a: "priv_vertex_at p d' \<noteq> Inl (ArithmeticError msg)" for d'
    by (rule priv_vertex_at_no_arith [OF srt len])
  have b: "vertex_at p d \<noteq> Inl (ArithmeticError msg)"
    using a by (simp add: vertex_at_def)
  have c: "snd (divide_count p count) \<noteq> Some (ArithmeticError msg)"
    by (rule divide_count_no_arith [OF a])
  have g: "snd r \<noteq> Some (ArithmeticError msg)"
    if "divide_by_length rnd p step force_last = Some r" for r
    using that by (rule divide_by_length_no_arith [OF srt len])
  have e: "self_distances p ! (i - 1) < self_distances p ! i"
    if "priv_index_at p d = int i" "0 < i" "i < length (self_distances p)" for i
  proof -
    have "bisect_left (self_distances p) d = i" using that by (simp add: priv_index_at_def)
    then show ?thesis using bisect_left_bracket [OF srt, of d] that by simp
  qed
  show ?thesis
    using a b c g divide_by_length_exact_total [OF assms] e by blast
qed

theorem no_internal_inconsistency_witness:
  "distances_invariant
     (ConstructionPolyline [Vec3 0 0 0, Vec3 1 0 0, Vec3 1 0 0, Vec3 2 0 0] False REL_TOL)
   \<and> priv_index_at
       (ConstructionPolyline [Vec3 0 0 0, Vec3 1 0 0, Vec3 1 0 0, Vec3 2 0 0] False REL_TOL) 1 = 1
   \<and> priv_vertex_at
       (ConstructionPolyline [Vec3 0 0 0, Vec3 1 0 0, Vec3 1 0 0, Vec3 2 0 0] False REL_TOL) 1
       = Inr (Vec3 1 0 0)
   \<and> snd (divide_count
       (ConstructionPolyline [Vec3 0 0 0, Vec3 1 0 0, Vec3 1 0 0, Vec3 2 0 0] False REL_TOL) 3)
       \<noteq> Some (ArithmeticError ''internal interpolation error'')
   \<and> divide_by_length round_double
         (ConstructionPolyline [Vec3 0 0 0, Vec3 1 0 0, Vec3 1 0 0, Vec3 2 0 0] False REL_TOL)
         1 True = Some ([Vec3 0 0 0, Vec3 1 0 0, Vec3 2 0 0], None)
   \<and> (\<exists>out e. divide_by_length (\<lambda>x. x)
         (ConstructionPolyline [Vec3 0 0 0, Vec3 1 0 0, Vec3 1 0 0, Vec3 2 0 0] False REL_TOL)
         (1 / 2) True = Some (out, e)
       \<and> e \<noteq> Some (ArithmeticError ''internal interpolation error''))"
  using no_internal_inconsistency
    [OF cp_invariant, of "[Vec3 0 0 0, Vec3 1 0 0, Vec3 1 0 0, Vec3 2 0 0]" False REL_TOL
       1 "''internal interpolation error''" 3 round_double "1 / 2" True]
    cp_invariant [of "[Vec3 0 0 0, Vec3 1 0 0, Vec3 1 0 0, Vec3 2 0 0]" False REL_TOL]
  unfolding scenario3_polyline
  by (simp add: scenario3_at_1 scenario3_divide)







text \<open>
  C10, as amended. For an \<^verbatim>\<open>ApproxParamT\<close> whose polyline has a positive length,
  \<^verbatim>\<open>param_t\<close> of a distance that is not positive is \<open>min(max_t, 0)\<close>: it raises
  nothing, and it is exactly \<open>0\<close> when \<open>max_t\<close> is not negative. This holds for every
  rounding that leaves \<open>0\<close> as it is, as double arithmetic and exact arithmetic do.
\<close>

theorem param_t_nonpositive_distance:
  assumes A: "ApproxParamT rnd curve max_t segments = Inr a"
    and L: "0 < length_of (self_polyline a)"
    and d: "d \<le> 0"
    and r0: "rnd 0 = 0"
  shows "param_t rnd a d = Inr (min max_t 0) \<and> (0 \<le> max_t \<longrightarrow> param_t rnd a d = Inr 0)"
proof -
  have "param_t rnd a d = Inr (min max_t 0)"
    by (rule param_t_nonpositive [OF A L d r0])
  then show ?thesis by simp
qed

theorem param_t_nonpositive_distance_witness:
  "0 < length_of \<lparr> self_rel_tol = REL_TOL,
               self_vertices = [Vec3 0 0 0, Vec3 2 0 0, Vec3 4 0 0],
               self_distances = [0, 2, 4] \<rparr>
   \<and> round_double 0 = 0
   \<and> param_t round_double \<lparr> self_polyline =
             \<lparr> self_rel_tol = REL_TOL,
               self_vertices = [Vec3 0 0 0, Vec3 2 0 0, Vec3 4 0 0],
               self_distances = [0, 2, 4] \<rparr>,
           self_max_t = 4, self_step = 2 \<rparr> (-5) = Inr 0
   \<and> param_t (\<lambda>x. x) \<lparr> self_polyline =
             \<lparr> self_rel_tol = REL_TOL,
               self_vertices = [Vec3 0 0 0, Vec3 2 0 0, Vec3 4 0 0],
               self_distances = [0, 2, 4] \<rparr>,
           self_max_t = 4, self_step = 2 \<rparr> (-5) = Inr 0"
proof -
  have L: "0 < length_of (self_polyline \<lparr> self_polyline =
             \<lparr> self_rel_tol = REL_TOL,
               self_vertices = [Vec3 0 0 0, Vec3 2 0 0, Vec3 4 0 0],
               self_distances = [0, 2, 4] \<rparr>,
           self_max_t = 4, self_step = 2 \<rparr>)"
    by (simp add: length_of_def)
  have d: "(-5 :: real) \<le> 0" by simp
  have exact: "ApproxParamT (\<lambda>x. x) line_curve 4 2 = Inr \<lparr> self_polyline =
             \<lparr> self_rel_tol = REL_TOL,
               self_vertices = [Vec3 0 0 0, Vec3 2 0 0, Vec3 4 0 0],
               self_distances = [0, 2, 4] \<rparr>,
           self_max_t = 4, self_step = 2 \<rparr>"
    by (simp add: ApproxParamT_def linspace_def upt_rec line_curve_def
        ConstructionPolyline_def eval_distances)
  show ?thesis
    using param_t_nonpositive_distance [OF line_approx L d round_double_0]
      param_t_nonpositive_distance [OF exact L d] L round_double_0 by simp
qed

text \<open>
  C10 as stated fails for a negative \<open>max_t\<close>, which the constructor accepts: the line
  sampled from \<open>0\<close> to \<open>-1\<close> in one segment has the length \<open>1\<close>, and \<^verbatim>\<open>param_t(-5)\<close>
  is \<open>min(-1, 0) = -1\<close>, a negative parameter.
\<close>

theorem param_t_negative_max_t_counterexample:
  "ApproxParamT round_double line_curve (-1) 1 =
     Inr \<lparr> self_polyline =
             \<lparr> self_rel_tol = REL_TOL,
               self_vertices = [Vec3 0 0 0, Vec3 (-1) 0 0],
               self_distances = [0, 1] \<rparr>,
           self_max_t = -1, self_step = -1 \<rparr>
   \<and> ApproxParamT (\<lambda>x. x) line_curve (-1) 1 =
     Inr \<lparr> self_polyline =
             \<lparr> self_rel_tol = REL_TOL,
               self_vertices = [Vec3 0 0 0, Vec3 (-1) 0 0],
               self_distances = [0, 1] \<rparr>,
           self_max_t = -1, self_step = -1 \<rparr>
   \<and> length_of \<lparr> self_rel_tol = REL_TOL,
               self_vertices = [Vec3 0 0 0, Vec3 (-1) 0 0],
               self_distances = [0, 1] \<rparr> = 1
   \<and> param_t round_double \<lparr> self_polyline =
             \<lparr> self_rel_tol = REL_TOL,
               self_vertices = [Vec3 0 0 0, Vec3 (-1) 0 0],
               self_distances = [0, 1] \<rparr>,
           self_max_t = -1, self_step = -1 \<rparr> (-5) = Inr (-1)
   \<and> param_t (\<lambda>x. x) \<lparr> self_polyline =
             \<lparr> self_rel_tol = REL_TOL,
               self_vertices = [Vec3 0 0 0, Vec3 (-1) 0 0],
               self_distances = [0, 1] \<rparr>,
           self_max_t = -1, self_step = -1 \<rparr> (-5) = Inr (-1)"
proof -
  have exact: "ApproxParamT (\<lambda>x. x) line_curve (-1) 1 =
     Inr \<lparr> self_polyline =
             \<lparr> self_rel_tol = REL_TOL,
               self_vertices = [Vec3 0 0 0, Vec3 (-1) 0 0],
               self_distances = [0, 1] \<rparr>,
           self_max_t = -1, self_step = -1 \<rparr>"
    by (simp add: ApproxParamT_def linspace_def upt_rec line_curve_def
        ConstructionPolyline_def eval_distances)
  have len: "length_of \<lparr> self_rel_tol = REL_TOL,
               self_vertices = [Vec3 0 0 0, Vec3 (-1) 0 0],
               self_distances = [0, 1] \<rparr> = 1"
    by (simp add: length_of_def)
  have p: "param_t (\<lambda>x. x) \<lparr> self_polyline =
             \<lparr> self_rel_tol = REL_TOL,
               self_vertices = [Vec3 0 0 0, Vec3 (-1) 0 0],
               self_distances = [0, 1] \<rparr>,
           self_max_t = -1, self_step = -1 \<rparr> (-5) = Inr (-1)"
    by (simp add: param_t_def length_of_def index_at_def data_def py_get_def)
  show ?thesis
    using reversed_line_approx reversed_line_param_t exact len p by simp
qed

text \<open>
  C6, as amended. For an \<^verbatim>\<open>ApproxParamT\<close> the constructor has built, whatever the
  rounding, \<^verbatim>\<open>param_t\<close> returns a value for every distance, never raises and never
  returns more than \<open>max_t\<close>, and a distance that is at least the length of the polyline
  gives exactly \<open>max_t\<close>. In exact arithmetic \<^verbatim>\<open>param_t\<close> is non-decreasing in the
  distance as well (lemma \<open>param_t_monotone_exact\<close>).
\<close>

theorem param_t_at_most_max_t:
  assumes A: "ApproxParamT rnd curve max_t segments = Inr a"
  shows "\<exists>t. param_t rnd a d = Inr t \<and> t \<le> max_t
           \<and> (length_of (self_polyline a) \<le> d \<longrightarrow> t = max_t)"
proof -
  have mt: "self_max_t a = max_t" using ApproxParamT_Inr [OF A] by simp
  show ?thesis using param_t_bounded [OF A, of d] unfolding mt .
qed

theorem param_t_at_most_max_t_witness:
  "ApproxParamT round_double line_curve 4 2 =
     Inr \<lparr> self_polyline =
             \<lparr> self_rel_tol = REL_TOL,
               self_vertices = [Vec3 0 0 0, Vec3 2 0 0, Vec3 4 0 0],
               self_distances = [0, 2, 4] \<rparr>,
           self_max_t = 4, self_step = 2 \<rparr>
   \<and> length_of (self_polyline \<lparr> self_polyline =
             \<lparr> self_rel_tol = REL_TOL,
               self_vertices = [Vec3 0 0 0, Vec3 2 0 0, Vec3 4 0 0],
               self_distances = [0, 2, 4] \<rparr>,
           self_max_t = 4, self_step = 2 \<rparr>) = 4
   \<and> param_t round_double \<lparr> self_polyline =
             \<lparr> self_rel_tol = REL_TOL,
               self_vertices = [Vec3 0 0 0, Vec3 2 0 0, Vec3 4 0 0],
               self_distances = [0, 2, 4] \<rparr>,
           self_max_t = 4, self_step = 2 \<rparr> 1 = Inr 1
   \<and> param_t round_double \<lparr> self_polyline =
             \<lparr> self_rel_tol = REL_TOL,
               self_vertices = [Vec3 0 0 0, Vec3 2 0 0, Vec3 4 0 0],
               self_distances = [0, 2, 4] \<rparr>,
           self_max_t = 4, self_step = 2 \<rparr> 9 = Inr 4"
  using param_t_at_most_max_t [OF line_approx, of 1] param_t_at_most_max_t [OF line_approx, of 9]
    line_param_t
  by (simp add: line_approx length_of_def)

text \<open>
  C6 as stated fails in double arithmetic: \<^verbatim>\<open>param_t\<close> is not monotonic. For the line
  sampled from \<open>0\<close> to \<open>0.2\<close> in one segment (\<open>0.2\<close> is the double nearest to one fifth),
  \<^verbatim>\<open>param_t(0)\<close> is \<open>0\<close>, and \<^verbatim>\<open>param_t\<close> of the larger distance \<open>2\<^sup>-\<^sup>7\<^sup>0\<close> is \<open>-2\<^sup>-\<^sup>5\<^sup>5\<close>:
  the correction \<open>0.2 * (0.2 - 2\<^sup>-\<^sup>7\<^sup>0) / 0.2\<close> rounds to the double just above \<open>0.2\<close>.
\<close>

theorem param_t_rounding_counterexample:
  "ApproxParamT round_double line_curve (3602879701896397 / 18014398509481984) 1 =
     Inr \<lparr> self_polyline =
             \<lparr> self_rel_tol = REL_TOL,
               self_vertices = [Vec3 0 0 0, Vec3 (3602879701896397 / 18014398509481984) 0 0],
               self_distances = [0, 3602879701896397 / 18014398509481984] \<rparr>,
           self_max_t = 3602879701896397 / 18014398509481984,
           self_step = 3602879701896397 / 18014398509481984 \<rparr>
   \<and> (0 :: real) \<le> 1 / 2 ^ 70
   \<and> param_t round_double \<lparr> self_polyline =
             \<lparr> self_rel_tol = REL_TOL,
               self_vertices = [Vec3 0 0 0, Vec3 (3602879701896397 / 18014398509481984) 0 0],
               self_distances = [0, 3602879701896397 / 18014398509481984] \<rparr>,
           self_max_t = 3602879701896397 / 18014398509481984,
           self_step = 3602879701896397 / 18014398509481984 \<rparr> 0 = Inr 0
   \<and> param_t round_double \<lparr> self_polyline =
             \<lparr> self_rel_tol = REL_TOL,
               self_vertices = [Vec3 0 0 0, Vec3 (3602879701896397 / 18014398509481984) 0 0],
               self_distances = [0, 3602879701896397 / 18014398509481984] \<rparr>,
           self_max_t = 3602879701896397 / 18014398509481984,
           self_step = 3602879701896397 / 18014398509481984 \<rparr> (1 / 2 ^ 70) = Inr (- (1 / 2 ^ 55))
   \<and> - (1 / 2 ^ 55) < (0 :: real)"
  using fifth_param_t_0 fifth_param_t_tiny by (simp add: fifth_approx)

end
